theory Spec2Isabelle
  imports Complex_Main
begin

section \<open>Two-point boundary value problems: the notebook's three solver cells\<close>

text \<open>
  The notebook \<^verbatim>\<open>17_ODE_BVP.ipynb\<close> holds three computational cells: the shooting
  method for \<open>u_xx = -sin u\<close>, the finite-difference solve with two Dirichlet
  boundaries, and the finite-difference solve with a Dirichlet and a Neumann boundary.
  Each cell is embedded as a function of the values the cell binds in its
  ``problem setup'' lines.  Python floats are embedded as \<^typ>\<open>real\<close>: every
  statement below is a statement in exact arithmetic.  The two library routines the
  cells call and whose code is not part of the notebook, \<^verbatim>\<open>numpy.linalg.solve\<close>
  and \<^verbatim>\<open>scipy.integrate.ode\<close>, are parameters of the embedding.
\<close>

subsection \<open>Errors and the NumPy operations the cells use\<close>

datatype py_error =
    ValueError
  | IndexError
  | ZeroDivisionError
  | LinAlgError
  | Exception string

type_synonym vec = "real list"
type_synonym mat = "real list list"

text \<open>Sequencing of statements that may raise: the first exception ends the cell.\<close>

definition ebind :: "py_error + 'a \<Rightarrow> ('a \<Rightarrow> py_error + 'b) \<Rightarrow> py_error + 'b" where
  "ebind m k = (case m of Inl e \<Rightarrow> Inl e | Inr v \<Rightarrow> k v)"

text \<open>Division of two Python floats (or of a float by an int): a zero divisor raises.\<close>

definition py_div :: "real \<Rightarrow> real \<Rightarrow> py_error + real" where
  "py_div p q = (if q = 0 then Inl ZeroDivisionError else Inr (p / q))"

text \<open>An index into an axis of length \<open>n\<close>; negative indices count from the end.\<close>

definition py_index :: "nat \<Rightarrow> int \<Rightarrow> py_error + nat" where
  "py_index n i =
     (let j = (if i < 0 then int n + i else i)
      in if 0 \<le> j \<and> j < int n then Inr (nat j) else Inl IndexError)"

text \<open>
  \<^verbatim>\<open>numpy.linspace(start, stop, num)\<close>: \<open>num\<close> samples, the last one set to
  \<open>stop\<close> when there is more than one; a negative \<open>num\<close> raises.
\<close>

definition linspace :: "real \<Rightarrow> real \<Rightarrow> int \<Rightarrow> py_error + vec" where
  "linspace start stop num =
     (if num < 0 then Inl ValueError
      else
        let n = nat num;
            dv = n - 1;
            delta = stop - start;
            ys = (if 0 < dv
                  then map (\<lambda>i. real i * (delta / real dv) + start) [0..<n]
                  else map (\<lambda>i. real i * delta + start) [0..<n])
        in Inr (if 1 < n then ys[n - 1 := stop] else ys))"

text \<open>\<^verbatim>\<open>numpy.zeros(n)\<close>, \<^verbatim>\<open>numpy.ones(n)\<close> and \<^verbatim>\<open>numpy.zeros((n, m))\<close>.\<close>

definition zeros :: "int \<Rightarrow> py_error + vec" where
  "zeros n = (if n < 0 then Inl ValueError else Inr (replicate (nat n) 0))"

definition ones :: "int \<Rightarrow> py_error + vec" where
  "ones n = (if n < 0 then Inl ValueError else Inr (replicate (nat n) 1))"

definition zeros2 :: "int \<Rightarrow> int \<Rightarrow> py_error + mat" where
  "zeros2 n m =
     (if n < 0 \<or> m < 0 then Inl ValueError
      else Inr (replicate (nat n) (replicate (nat m) 0)))"

text \<open>
  \<^verbatim>\<open>numpy.empty\<close> allocates without initialising: the entries are whatever the
  memory held, here the values of \<open>mem\<close>.
\<close>

definition empty1 :: "(nat \<Rightarrow> real) \<Rightarrow> int \<Rightarrow> py_error + vec" where
  "empty1 mem n = (if n < 0 then Inl ValueError else Inr (map mem [0..<nat n]))"

text \<open>
  \<^verbatim>\<open>numpy.diag(v, k)\<close> of a vector: the square matrix of size \<open>len v + |k|\<close> with
  \<open>v\<close> on the \<open>k\<close>-th diagonal and zero elsewhere.
\<close>

definition diag :: "vec \<Rightarrow> int \<Rightarrow> mat" where
  "diag v k =
     (let n = length v + nat \<bar>k\<bar>
      in map (\<lambda>i. map (\<lambda>j. if int j = int i + k
                              then v ! (if 0 \<le> k then i else j) else 0) [0..<n]) [0..<n])"

text \<open>
  \<open>A += B\<close> on two-dimensional arrays: entrywise when the shapes agree, the single
  entry added everywhere when \<open>B\<close> is 1 by 1 (broadcasting), an error otherwise
  (\<open>B\<close> is always a square matrix built by \<^const>\<open>diag\<close>).
\<close>

definition mat_iadd :: "mat \<Rightarrow> mat \<Rightarrow> py_error + mat" where
  "mat_iadd A B =
     (if map length B = map length A then Inr (map2 (map2 (+)) A B)
      else if map length B = [1] then Inr (map (map (\<lambda>v. v + hd (hd B))) A)
      else Inl ValueError)"

text \<open>
  \<open>U[1:-1] = v\<close> on a one-dimensional array: the slice holds \<open>len U - 2\<close> entries
  (none when \<open>U\<close> is shorter than 2); \<open>v\<close> must have that length or length 1.
\<close>

definition assign_inner :: "vec \<Rightarrow> vec \<Rightarrow> py_error + vec" where
  "assign_inner U v =
     (let cnt = length U - 2
      in if length v = cnt then Inr (take 1 U @ v @ drop (1 + cnt) U)
         else if length v = 1 then Inr (take 1 U @ replicate cnt (hd v) @ drop (1 + cnt) U)
         else Inl ValueError)"

text \<open>\<open>A[i, j] = v\<close> on a two-dimensional array; both indices are checked.\<close>

definition mat_set :: "mat \<Rightarrow> int \<Rightarrow> int \<Rightarrow> real \<Rightarrow> py_error + mat" where
  "mat_set A i j v =
     ebind (py_index (length A) i) (\<lambda>r.
     ebind (py_index (length (A ! r)) j) (\<lambda>c.
     Inr (A[r := (A ! r)[c := v]])))"

text \<open>\<^verbatim>\<open>numpy.empty((2, n))\<close>: two uninitialised rows.\<close>

definition empty2 :: "(nat \<Rightarrow> real) \<Rightarrow> int \<Rightarrow> py_error + (vec \<times> vec)" where
  "empty2 mem n =
     (if n < 0 then Inl ValueError
      else Inr (map mem [0..<nat n], map (\<lambda>c. mem (nat n + c)) [0..<nat n]))"

text \<open>The product of a matrix (a list of rows) and a vector.\<close>

definition dot :: "vec \<Rightarrow> vec \<Rightarrow> real" where
  "dot r v = sum_list (map2 (*) r v)"

definition mat_vec :: "mat \<Rightarrow> vec \<Rightarrow> vec" where
  "mat_vec A v = map (\<lambda>r. dot r v) A"

subsection \<open>Finite differences, Dirichlet boundaries\<close>

text \<open>
  The cell up to the line \<open>b[-1] -= u_b / delta_x**2\<close>: the grid, the matrix and
  the right-hand side.  \<open>b[0] -= e\<close> reads \<open>b[0]\<close> before it evaluates \<open>e\<close>, so an
  empty \<open>b\<close> raises IndexError before a zero \<open>delta_x\<close> raises ZeroDivisionError.
  The right-hand side \<open>b\<close> of the cell is \<open>rhs\<close> here (the cell reuses the name of the
  right end point).  Where \<open>delta_x = 0\<close> NumPy fills \<open>diagonal\<close> with infinities
  and goes on; every such run raises before the matrix is used.
\<close>

definition dirichlet_assemble ::
  "(real \<Rightarrow> real) \<Rightarrow> real \<Rightarrow> real \<Rightarrow> real \<Rightarrow> real \<Rightarrow> int \<Rightarrow> py_error + (vec \<times> mat \<times> vec)" where
  "dirichlet_assemble f a b u_a u_b N =
     ebind (linspace a b (N + 2)) (\<lambda>x_bc.
     let x = butlast (tl x_bc) in
     ebind (py_div (b - a) (of_int (N + 1))) (\<lambda>delta_x.
     ebind (zeros2 N N) (\<lambda>A.
     ebind (ones N) (\<lambda>os.
     let diagonal = map (\<lambda>v. v / delta_x\<^sup>2) os in
     ebind (mat_iadd A (diag (map (\<lambda>v. v * (- 2)) diagonal) 0)) (\<lambda>A.
     ebind (mat_iadd A (diag (butlast diagonal) 1)) (\<lambda>A.
     ebind (mat_iadd A (diag (butlast diagonal) (- 1))) (\<lambda>A.
     let rhs = map f x in
     ebind (py_index (length rhs) 0) (\<lambda>i.
     ebind (py_div u_a (delta_x\<^sup>2)) (\<lambda>q.
     let rhs = rhs[i := rhs ! i - q] in
     ebind (py_index (length rhs) (- 1)) (\<lambda>j.
     ebind (py_div u_b (delta_x\<^sup>2)) (\<lambda>q.
     let rhs = rhs[j := rhs ! j - q] in
     Inr (x_bc, A, rhs))))))))))))"

text \<open>
  The whole cell: \<open>solve\<close> stands for \<^verbatim>\<open>numpy.linalg.solve\<close>, \<open>mem\<close> for the
  memory \<^verbatim>\<open>numpy.empty\<close> hands out.  The result is the array \<open>U\<close>.
\<close>

definition dirichlet_fd ::
  "(mat \<Rightarrow> vec \<Rightarrow> py_error + vec) \<Rightarrow> (nat \<Rightarrow> real) \<Rightarrow>
   (real \<Rightarrow> real) \<Rightarrow> real \<Rightarrow> real \<Rightarrow> real \<Rightarrow> real \<Rightarrow> int \<Rightarrow> py_error + vec" where
  "dirichlet_fd solve mem f a b u_a u_b N =
     ebind (dirichlet_assemble f a b u_a u_b N) (\<lambda>(x_bc, A, rhs).
     ebind (empty1 mem (N + 2)) (\<lambda>U.
     ebind (py_index (length U) 0) (\<lambda>i.
     let U = U[i := u_a] in
     ebind (py_index (length U) (- 1)) (\<lambda>j.
     let U = U[j := u_b] in
     ebind (solve A rhs) (\<lambda>v.
     assign_inner U v)))))"


subsection \<open>Finite differences, a Dirichlet and a Neumann boundary\<close>

text \<open>
  The third cell keeps both boundary points as unknowns.  An assignment
  \<open>A[-1, -1] = 3.0 / (2.0 * delta_x)\<close> evaluates its right-hand side first, so a zero
  \<open>delta_x\<close> raises ZeroDivisionError before the index is looked at.
\<close>

definition mixed_assemble ::
  "(real \<Rightarrow> real) \<Rightarrow> real \<Rightarrow> real \<Rightarrow> real \<Rightarrow> real \<Rightarrow> int \<Rightarrow> py_error + (vec \<times> mat \<times> vec)" where
  "mixed_assemble f a b u_a u_x_b N =
     ebind (linspace a b (N + 2)) (\<lambda>x_bc.
     ebind (py_div (b - a) (of_int (N + 1))) (\<lambda>delta_x.
     ebind (zeros2 (N + 2) (N + 2)) (\<lambda>A.
     ebind (ones (N + 2)) (\<lambda>os.
     let diagonal = map (\<lambda>v. v / delta_x\<^sup>2) os in
     ebind (mat_iadd A (diag (map (\<lambda>v. v * (- 2)) diagonal) 0)) (\<lambda>A.
     ebind (mat_iadd A (diag (butlast diagonal) 1)) (\<lambda>A.
     ebind (mat_iadd A (diag (butlast diagonal) (- 1))) (\<lambda>A.
     let rhs = map f x_bc in
     ebind (mat_set A 0 0 1) (\<lambda>A.
     ebind (mat_set A 0 1 0) (\<lambda>A.
     ebind (py_div 3 (2 * delta_x)) (\<lambda>q.
     ebind (mat_set A (- 1) (- 1) q) (\<lambda>A.
     ebind (py_div (- 4) (2 * delta_x)) (\<lambda>q.
     ebind (mat_set A (- 1) (- 2) q) (\<lambda>A.
     ebind (py_div 1 (2 * delta_x)) (\<lambda>q.
     ebind (mat_set A (- 1) (- 3) q) (\<lambda>A.
     ebind (py_index (length rhs) 0) (\<lambda>i.
     let rhs = rhs[i := u_a] in
     ebind (py_index (length rhs) (- 1)) (\<lambda>j.
     let rhs = rhs[j := u_x_b] in
     Inr (x_bc, A, rhs))))))))))))))))))"

definition mixed_fd ::
  "(mat \<Rightarrow> vec \<Rightarrow> py_error + vec) \<Rightarrow> (nat \<Rightarrow> real) \<Rightarrow>
   (real \<Rightarrow> real) \<Rightarrow> real \<Rightarrow> real \<Rightarrow> real \<Rightarrow> real \<Rightarrow> int \<Rightarrow> py_error + vec" where
  "mixed_fd solve mem f a b u_a u_x_b N =
     ebind (mixed_assemble f a b u_a u_x_b N) (\<lambda>(x_bc, A, rhs).
     ebind (empty1 mem (N + 2)) (\<lambda>U.
     solve A rhs))"

subsection \<open>The shooting method\<close>

text \<open>The two algorithm parameters of the cell.\<close>

definition TOLERANCE :: real where
  "TOLERANCE = 1 / 10 ^ 8"

definition MAX_ITERATIONS :: nat where
  "MAX_ITERATIONS = 100"

text \<open>
  The integrator object \<^verbatim>\<open>scipy.integrate.ode(f)\<close> with the \<^verbatim>\<open>dopri5\<close>
  method, as the cell uses it: \<open>ode_init y0\<close> is the object after
  \<open>set_initial_value(y0)\<close> (the time argument is left at its default 0),
  \<open>ode_integrate\<close> is \<open>integrate(x_output)\<close>, \<open>ode_successful\<close> and \<open>ode_y\<close> read
  \<open>successful()\<close> and \<open>y\<close>.  The state type \<open>'s\<close> is whatever the integrator keeps
  between calls; the right-hand side \<open>f\<close> of the cell lives inside it.
\<close>

record 's ode_api =
  ode_init :: "real \<times> real \<Rightarrow> 's"
  ode_integrate :: "'s \<Rightarrow> real \<Rightarrow> 's"
  ode_successful :: "'s \<Rightarrow> bool"
  ode_y :: "'s \<Rightarrow> real \<times> real"

text \<open>
  The variables the main loop updates: the slope guess, its step, the flag, the
  array \<open>u\<close> (two rows, \<open>u_arr\<close> here), the trace and the loop variable \<open>n\<close>
  (\<open>n_last\<close> here, unbound before the first iteration).
\<close>

record shoot_state =
  u_prime_rhs :: real
  du_prime :: real
  success :: bool
  u_arr :: "vec \<times> vec"
  convergence :: vec
  n_last :: "nat option"

text \<open>The exception of the line \<^verbatim>\<open>raise Exception("Integration Failed!")\<close>.\<close>

definition integration_failed :: py_error where
  "integration_failed = Exception ''Integration Failed!''"

text \<open>
  The inner loop \<open>for (i, x_output) in enumerate(x[1:])\<close>: one call of the
  integrator per output point, the exception at the first unsuccessful call, the state
  stored in column \<open>i + 1\<close> otherwise.
\<close>

fun march :: "'s ode_api \<Rightarrow> 's \<Rightarrow> nat \<Rightarrow> vec \<Rightarrow> vec \<times> vec \<Rightarrow> py_error + (vec \<times> vec)" where
  "march api s i [] u = Inr u"
| "march api s i (x_output # xs) u =
     (let s' = ode_integrate api s x_output in
      if \<not> ode_successful api s' then Inl integration_failed
      else march api s' (Suc i) xs
             ((fst u)[Suc i := fst (ode_y api s')], (snd u)[Suc i := snd (ode_y api s')]))"

text \<open>
  The block under the comment \<open># Stopping Criteria\<close>, with \<open>ub\<close> the computed
  \<open>u[0, -1]\<close> and \<open>k\<close> the position \<open>n\<close> in the trace: the residual is stored, then
  either the flag is set and the loop is left (the Boolean \<open>True\<close>) or the guess is
  moved.
\<close>

definition stopping_criteria :: "real \<Rightarrow> nat \<Rightarrow> real \<Rightarrow> shoot_state \<Rightarrow> bool \<times> shoot_state" where
  "stopping_criteria u_b k ub st =
     (let st = st\<lparr>convergence := (convergence st)[k := \<bar>ub - u_b\<bar>]\<rparr> in
      if \<bar>ub - u_b\<bar> < TOLERANCE then (True, st\<lparr>success := True\<rparr>)
      else if ub < u_b
        then (False, st\<lparr>u_prime_rhs := u_prime_rhs st + du_prime st\<rparr>)
        else (False, st\<lparr>u_prime_rhs := u_prime_rhs st - du_prime st,
                        du_prime := du_prime st * (1 / 2)\<rparr>))"

text \<open>
  One pass through the body of the main loop: the initial condition in column 0,
  the integration, the stopping criteria.
\<close>

definition shoot_iteration ::
  "'s ode_api \<Rightarrow> vec \<Rightarrow> real \<Rightarrow> real \<Rightarrow> nat \<Rightarrow> shoot_state \<Rightarrow> py_error + (bool \<times> shoot_state)" where
  "shoot_iteration api x u_a u_b n st =
     ebind (py_index (length (fst (u_arr st))) 0) (\<lambda>i.
     let u = ((fst (u_arr st))[i := u_a], (snd (u_arr st))[i := u_prime_rhs st]) in
     ebind (march api (ode_init api (fst u ! i, snd u ! i)) 0 (tl x) u) (\<lambda>u.
     ebind (py_index (length (fst u)) (- 1)) (\<lambda>j.
     ebind (py_index (length (convergence st)) (int n)) (\<lambda>k.
     Inr (stopping_criteria u_b k (fst u ! j) (st\<lparr>u_arr := u, n_last := Some n\<rparr>))))))"

text \<open>The main loop over the values \<open>ns\<close> of \<open>n\<close> that are still to come.\<close>

fun shoot_loop ::
  "'s ode_api \<Rightarrow> vec \<Rightarrow> real \<Rightarrow> real \<Rightarrow> nat list \<Rightarrow> shoot_state \<Rightarrow> py_error + shoot_state" where
  "shoot_loop api x u_a u_b [] st = Inr st"
| "shoot_loop api x u_a u_b (n # ns) st =
     (case shoot_iteration api x u_a u_b n st of
        Inl e \<Rightarrow> Inl e
      | Inr (brk, st') \<Rightarrow> if brk then Inr st' else shoot_loop api x u_a u_b ns st')"

text \<open>
  The cell: the problem statement supplies \<open>a\<close>, \<open>b\<close>, \<open>N\<close>, \<open>u_a\<close>, \<open>u_b\<close> and the
  two initial values \<open>u_prime_rhs\<close> and \<open>du_prime\<close>.
\<close>

definition shooting ::
  "'s ode_api \<Rightarrow> (nat \<Rightarrow> real) \<Rightarrow> real \<Rightarrow> real \<Rightarrow> int \<Rightarrow> real \<Rightarrow> real \<Rightarrow> real \<Rightarrow> real \<Rightarrow>
   py_error + shoot_state" where
  "shooting api mem a b N u_a u_b u_prime_rhs0 du_prime0 =
     ebind (linspace a b N) (\<lambda>x.
     ebind (empty2 mem N) (\<lambda>u.
     ebind (zeros (int MAX_ITERATIONS)) (\<lambda>conv.
     shoot_loop api x u_a u_b [0..<MAX_ITERATIONS]
       \<lparr>u_prime_rhs = u_prime_rhs0, du_prime = du_prime0, success = False,
        u_arr = u, convergence = conv, n_last = None\<rparr>)))"

subsection \<open>The systems as the specification words them\<close>

text \<open>
  The grid point \<open>x_i = a + i \<Delta>x\<close> with \<open>\<Delta>x = (b - a) / (n + 1)\<close>, for \<open>n\<close>
  interior points.
\<close>

definition grid :: "real \<Rightarrow> real \<Rightarrow> nat \<Rightarrow> nat \<Rightarrow> real" where
  "grid a b n i = a + real i * ((b - a) / real (n + 1))"

text \<open>
  The stencil \<open>[1, -2, 1]\<close> scaled by \<open>c\<close>: the entry in row \<open>i\<close>, column \<open>j\<close> of a
  tridiagonal matrix with \<open>-2c\<close> on the diagonal and \<open>c\<close> beside it.
\<close>

definition stencil :: "real \<Rightarrow> nat \<Rightarrow> nat \<Rightarrow> real" where
  "stencil c i j = (if i = j then - 2 * c else if i = j + 1 \<or> j = i + 1 then c else 0)"

definition tridiag :: "nat \<Rightarrow> real \<Rightarrow> mat" where
  "tridiag n c = map (\<lambda>i. map (\<lambda>j. stencil c i j) [0..<n]) [0..<n]"

definition square :: "nat \<Rightarrow> mat \<Rightarrow> bool" where
  "square n A \<longleftrightarrow> map length A = replicate n n"

text \<open>
  Entry \<open>i\<close> (counted from 0) of the Dirichlet right-hand side: \<open>f\<close> at the interior
  point, less \<open>u_a / \<Delta>x\<^sup>2\<close> in the first entry, less \<open>u_b / \<Delta>x\<^sup>2\<close> in the last
  one.  For \<open>n = 1\<close> the first entry is the last one and loses both.
\<close>

definition dirichlet_rhs ::
  "(real \<Rightarrow> real) \<Rightarrow> real \<Rightarrow> real \<Rightarrow> real \<Rightarrow> real \<Rightarrow> nat \<Rightarrow> nat \<Rightarrow> real" where
  "dirichlet_rhs f a b u_a u_b n i =
     f (grid a b n (i + 1))
       - (if i = 0 then u_a / ((b - a) / real (n + 1))\<^sup>2 else 0)
       - (if i + 1 = n then u_b / ((b - a) / real (n + 1))\<^sup>2 else 0)"

text \<open>
  The matrix of the mixed problem on the \<open>n + 2\<close> points: the identity row on top,
  the one-sided difference \<open>[1, -4, 3] / (2 \<Delta>x)\<close> in columns \<open>n - 1\<close>, \<open>n\<close>, \<open>n + 1\<close> of
  the last row, the interior stencil between them; and its right-hand side.
\<close>

definition mixed_matrix :: "nat \<Rightarrow> real \<Rightarrow> mat" where
  "mixed_matrix n dx =
     map (\<lambda>i. map (\<lambda>j.
       if i = 0 then (if j = 0 then 1 else 0)
       else if i = n + 1 then
         (if j + 2 = n + 1 then 1 / (2 * dx)
          else if j + 1 = n + 1 then - 4 / (2 * dx)
          else if j = n + 1 then 3 / (2 * dx)
          else 0)
       else stencil (1 / dx\<^sup>2) i j) [0..<n + 2]) [0..<n + 2]"

definition mixed_rhs ::
  "(real \<Rightarrow> real) \<Rightarrow> real \<Rightarrow> real \<Rightarrow> real \<Rightarrow> real \<Rightarrow> nat \<Rightarrow> nat \<Rightarrow> real" where
  "mixed_rhs f a b u_a u_x_b n i =
     (if i = 0 then u_a else if i = n + 1 then u_x_b else f (grid a b n i))"

text \<open>One entry of a matrix replaced (the effect of \<^const>\<open>mat_set\<close> in range).\<close>

definition upd :: "mat \<Rightarrow> nat \<Rightarrow> nat \<Rightarrow> real \<Rightarrow> mat" where
  "upd A r c v = A[r := (A ! r)[c := v]]"

subsection \<open>The linear solver\<close>

text \<open>
  What the cells rely on from \<^verbatim>\<open>numpy.linalg.solve\<close>, in exact arithmetic and for
  one system: it returns a vector that solves the system, or raises
  \<^const>\<open>LinAlgError\<close>, and this only when the matrix is singular.
\<close>

definition singular :: "mat \<Rightarrow> bool" where
  "singular A \<longleftrightarrow>
     (\<exists>v. length v = length A \<and> v \<noteq> replicate (length A) 0 \<and>
          mat_vec A v = replicate (length A) 0)"

definition exact_solve_on :: "(mat \<Rightarrow> vec \<Rightarrow> py_error + vec) \<Rightarrow> mat \<Rightarrow> vec \<Rightarrow> bool" where
  "exact_solve_on solve A rhs \<longleftrightarrow>
     (case solve A rhs of
        Inl e \<Rightarrow> e = LinAlgError \<and> singular A
      | Inr v \<Rightarrow> length v = length rhs \<and> mat_vec A v = rhs)"

text \<open>
  A direct solver to run the cells with: elimination with partial pivoting on the
  rows of the augmented matrix, a zero pivot column reported as a singular matrix.
\<close>

definition pivot_row :: "vec list \<Rightarrow> vec" where
  "pivot_row rows =
     fold (\<lambda>r best. if \<bar>hd best\<bar> < \<bar>hd r\<bar> then r else best) (tl rows) (hd rows)"

definition eliminate :: "vec \<Rightarrow> vec \<Rightarrow> vec" where
  "eliminate p r = tl (map2 (\<lambda>rj pj. rj - hd r / hd p * pj) r p)"

fun solve_aug :: "nat \<Rightarrow> vec list \<Rightarrow> vec option" where
  "solve_aug 0 rows = Some []"
| "solve_aug (Suc n) rows =
     (let p = pivot_row rows in
      if hd p = 0 then None
      else case solve_aug n (map (eliminate p) (remove1 p rows)) of
             None \<Rightarrow> None
           | Some xs \<Rightarrow> Some ((last p - dot (butlast (tl p)) xs) / hd p # xs))"

definition gauss_solve :: "mat \<Rightarrow> vec \<Rightarrow> py_error + vec" where
  "gauss_solve A rhs =
     (if map length A \<noteq> replicate (length rhs) (length rhs) then Inl LinAlgError
      else case solve_aug (length rhs) (map2 (\<lambda>r y. r @ [y]) A rhs) of
             None \<Rightarrow> Inl LinAlgError
           | Some v \<Rightarrow> Inr v)"

subsection \<open>Notions about a run of the shooting loop\<close>

text \<open>
  The states the integrator goes through when it is stepped to the output points
  one after the other.
\<close>

fun ode_run :: "'s ode_api \<Rightarrow> 's \<Rightarrow> vec \<Rightarrow> 's list" where
  "ode_run api s [] = []"
| "ode_run api s (x_output # xs) =
     ode_integrate api s x_output # ode_run api (ode_integrate api s x_output) xs"


text \<open>
  The trace after the loop has run over the indices \<open>ns\<close>: the last index \<open>j\<close> it
  reached holds the residual of the final \<open>u\<close>, the flag says whether that residual
  is below the tolerance, the residuals before it are not, and a loop that did not
  succeed reached the last index.
\<close>

definition trace_ok :: "real \<Rightarrow> nat list \<Rightarrow> shoot_state \<Rightarrow> bool" where
  "trace_ok u_b ns st \<longleftrightarrow>
     (ns = [] \<and> \<not> success st) \<or>
     (\<exists>j\<in>set ns. n_last st = Some j
        \<and> convergence st ! j = \<bar>last (fst (u_arr st)) - u_b\<bar>
        \<and> (success st \<longleftrightarrow> convergence st ! j < TOLERANCE)
        \<and> list_all (\<lambda>i. TOLERANCE \<le> convergence st ! i) (takeWhile (\<lambda>i. i \<noteq> j) ns)
        \<and> (success st \<or> j = last ns))"

text \<open>
  The run of the loop in the words of the description.  The integrator reports
  failure at some output point when it is started from the slope guess \<open>s\<close>:
\<close>

definition integrator_fails :: "'s ode_api \<Rightarrow> vec \<Rightarrow> real \<Rightarrow> real \<Rightarrow> bool" where
  "integrator_fails api x u_a s \<longleftrightarrow>
     list_ex (\<lambda>s. \<not> ode_successful api s) (ode_run api (ode_init api (u_a, s)) (tl x))"

text \<open>
  The value \<open>u(b)\<close> that a march from the guess \<open>s\<close> leaves in the last column of
  \<open>u\<close>, and its distance from the target.
\<close>

definition computed_ub :: "'s ode_api \<Rightarrow> vec \<Rightarrow> real \<Rightarrow> real \<Rightarrow> real" where
  "computed_ub api x u_a s =
     (if tl x = [] then u_a
      else fst (ode_y api (last (ode_run api (ode_init api (u_a, s)) (tl x)))))"

definition residual :: "'s ode_api \<Rightarrow> vec \<Rightarrow> real \<Rightarrow> real \<Rightarrow> real \<Rightarrow> real" where
  "residual api x u_a u_b s = \<bar>computed_ub api x u_a s - u_b\<bar>"

text \<open>
  The guess and the step before iteration \<open>k\<close>, when none of the iterations before
  it met the stopping criterion: the guess grows by the step while the computed
  \<open>u(b)\<close> is below the target, otherwise it shrinks by the step and the step is
  halved.
\<close>

fun guess :: "'s ode_api \<Rightarrow> vec \<Rightarrow> real \<Rightarrow> real \<Rightarrow> real \<times> real \<Rightarrow> nat \<Rightarrow> real \<times> real" where
  "guess api x u_a u_b g 0 = g"
| "guess api x u_a u_b g (Suc k) =
     (let (s, ds) = guess api x u_a u_b g k in
      if computed_ub api x u_a s < u_b then (s + ds, ds) else (s - ds, ds * (1 / 2)))"

text \<open>
  No convergence in the first \<open>k\<close> iterations: in each of them the integrator
  reports no failure and the residual is not below the tolerance.
\<close>

definition unconverged :: "'s ode_api \<Rightarrow> vec \<Rightarrow> real \<Rightarrow> real \<Rightarrow> real \<times> real \<Rightarrow> nat \<Rightarrow> bool" where
  "unconverged api x u_a u_b g k \<longleftrightarrow>
     list_all (\<lambda>j. \<not> integrator_fails api x u_a (fst (guess api x u_a u_b g j))
                 \<and> TOLERANCE \<le> residual api x u_a u_b (fst (guess api x u_a u_b g j))) [0..<k]"


text \<open>
  An integrator to run the loop with: the exact flow of \<open>u_xx = 0\<close> from time 0,
  reporting failure once \<open>|u|\<close> exceeds \<open>limit\<close>.
\<close>

definition linear_ode :: "real \<Rightarrow> (real \<times> real \<times> real) ode_api" where
  "linear_ode limit =
     \<lparr>ode_init = (\<lambda>(u, v). (0, u, v)),
      ode_integrate = (\<lambda>(t, u, v) x. (x, u + v * (x - t), v)),
      ode_successful = (\<lambda>(t, u, v). \<bar>u\<bar> \<le> limit),
      ode_y = (\<lambda>(t, u, v). (u, v))\<rparr>"

subsection \<open>Runs to try the loop on\<close>

text \<open>
  A run that never meets the stopping criterion: the target 1000 is out of reach of
  a hundred steps of size 1/2.  The state before iteration \<open>k\<close>:
\<close>

definition climbing :: "nat \<Rightarrow> shoot_state" where
  "climbing k =
     \<lparr>u_prime_rhs = 1 + real k / 2, du_prime = 1 / 2, success = False,
      u_arr = ([0, 1 + real k], [(1 + real k) / 2, (1 + real k) / 2]),
      convergence = map (\<lambda>i. if i < k then 998 - real i else 0) [0..<100],
      n_last = (if k = 0 then None else Some (k - 1))\<rparr>"

text \<open>The same flow with an integrator that never reports failure.\<close>

definition steady_ode :: "(real \<times> real \<times> real) ode_api" where
  "steady_ode = (linear_ode 0)\<lparr>ode_successful := (\<lambda>s. True)\<rparr>"

subsection \<open>The exponential example\<close>

text \<open>
  The exact solution of \<open>u_xx = e\<^sup>x\<close> on \<open>[0, 1]\<close> with \<open>u(0) = 0\<close>, \<open>u(1) = 3\<close>, as the
  cell defines it to plot against.
\<close>

definition u_true :: "real \<Rightarrow> real" where
  "u_true x = (4 - exp 1) * x - 1 + exp x"

text \<open>
  The maximum error on the grid, the boundary points included, of the output of the
  cell for this problem with \<open>n\<close> interior points.
\<close>

definition fd_exp_error :: "(mat \<Rightarrow> vec \<Rightarrow> py_error + vec) \<Rightarrow> (nat \<Rightarrow> real) \<Rightarrow> nat \<Rightarrow> real" where
  "fd_exp_error solve mem n =
     (case dirichlet_fd solve mem exp 0 1 0 3 (int n) of
        Inl e \<Rightarrow> 0
      | Inr U \<Rightarrow> Max ((\<lambda>i. \<bar>U ! i - u_true (grid 0 1 n i)\<bar>) ` {..n + 1}))"

text \<open>
  Notions for the analysis of that error.  The discrete solution differs from the
  exact one by \<open>(1 - cfac \<Delta>x) gdev\<close>: \<open>cfac h\<close> is the ratio of \<open>h\<^sup>2\<close> to the second
  difference \<open>e\<^sup>h - 2 + e\<^sup>-\<^sup>h\<close> of the exponential, and \<open>gdev\<close> is the exponential less
  its chord on \<open>[0, 1]\<close>.
\<close>

definition cfac :: "real \<Rightarrow> real" where
  "cfac h = h\<^sup>2 / (exp h + exp (- h) - 2)"

definition gdev :: "real \<Rightarrow> real" where
  "gdev x = exp x - 1 - (exp 1 - 1) * x"

text \<open>The point where \<open>gdev\<close> is smallest, and the size of \<open>gdev\<close> there.\<close>

definition xstar :: real where
  "xstar = ln (exp 1 - 1)"

definition gmax :: real where
  "gmax = - gdev xstar"

section \<open>Properties\<close>

lemma ebind_simps [simp]: "ebind (Inl e) k = Inl e" "ebind (Inr v) k = k v"
  by (simp_all add: ebind_def)

lemma linspace_grid:
  "linspace a b (int n + 2) = Inr (map (grid a b n) [0..<n + 2])"
proof -
  have "(map (\<lambda>i. real i * ((b - a) / real (n + 1)) + a) [0..<n + 2])[n + 1 := b]
        = map (grid a b n) [0..<n + 2]"
  proof (rule nth_equalityI)
    fix i assume "i < length ((map (\<lambda>i. real i * ((b - a) / real (n + 1)) + a) [0..<n + 2])[n + 1 := b])"
    then have i: "i < n + 2" by simp
    show "(map (\<lambda>i. real i * ((b - a) / real (n + 1)) + a) [0..<n + 2])[n + 1 := b] ! i
          = map (grid a b n) [0..<n + 2] ! i"
    proof (cases "i = n + 1")
      case True
      have "grid a b n (n + 1) = b" by (simp add: grid_def)
      with True show ?thesis by (simp del: upt_Suc)
    next
      case False
      with i show ?thesis by (simp add: grid_def nth_list_update del: upt_Suc)
    qed
  qed simp
  then show ?thesis
    by (simp add: linspace_def Let_def nat_add_distrib del: upt_Suc)
qed

lemma map_length_diag: "map length (diag v k) = replicate (length v + nat \<bar>k\<bar>) (length v + nat \<bar>k\<bar>)"
  by (rule nth_equalityI) (simp_all add: diag_def Let_def)

lemma diag_nth:
  "i < length v + nat \<bar>k\<bar> \<Longrightarrow> j < length v + nat \<bar>k\<bar> \<Longrightarrow>
   diag v k ! i ! j = (if int j = int i + k then v ! (if 0 \<le> k then i else j) else 0)"
  by (simp add: diag_def Let_def)

lemma mat_iadd_same:
  "map length B = map length A \<Longrightarrow> mat_iadd A B = Inr (map2 (map2 (+)) A B)"
  by (simp add: mat_iadd_def)

lemma squareD: "square n A \<Longrightarrow> length A = n" "square n A \<Longrightarrow> i < n \<Longrightarrow> length (A ! i) = n"
proof -
  assume s: "square n A"
  then have "length (map length A) = n" by (simp add: square_def)
  then show l: "length A = n" by simp
  assume "i < n"
  with l have "map length A ! i = length (A ! i)" by simp
  with s \<open>i < n\<close> show "length (A ! i) = n" by (simp add: square_def)
qed

lemma mat_add_square:
  assumes "square n A" "square n B"
  shows "square n (map2 (map2 (+)) A B)"
    and "i < n \<Longrightarrow> j < n \<Longrightarrow> map2 (map2 (+)) A B ! i ! j = A ! i ! j + B ! i ! j"
proof -
  have lA: "length A = n" and lB: "length B = n" using assms squareD(1) by auto
  have "map length (map2 (map2 (+)) A B) = replicate n n"
    by (rule nth_equalityI) (use assms squareD lA lB in auto)
  then show "square n (map2 (map2 (+)) A B)" by (simp add: square_def)
  show "i < n \<Longrightarrow> j < n \<Longrightarrow> map2 (map2 (+)) A B ! i ! j = A ! i ! j + B ! i ! j"
    using assms squareD lA lB by auto
qed

lemma square_replicate: "square n (replicate n (replicate n c))"
  by (simp add: square_def)

lemma square_diag: "length v + nat \<bar>k\<bar> = n \<Longrightarrow> square n (diag v k)"
  by (simp add: square_def map_length_diag)

lemma mat_iadd_square:
  "square n A \<Longrightarrow> square n B \<Longrightarrow> mat_iadd A B = Inr (map2 (map2 (+)) A B)"
  by (simp add: mat_iadd_same square_def)

lemma square_tridiag: "square n (tridiag n c)"
  by (simp add: square_def tridiag_def) (rule nth_equalityI, simp_all)

lemma tridiag_overlay:
  assumes n: "0 < n"
  shows "ebind (mat_iadd (replicate n (replicate n 0)) (diag (map (\<lambda>v. v * (- 2)) (replicate n c)) 0)) (\<lambda>A.
         ebind (mat_iadd A (diag (butlast (replicate n c)) 1)) (\<lambda>A.
         ebind (mat_iadd A (diag (butlast (replicate n c)) (- 1))) k)) = k (tridiag n c)"
proof -
  let ?Z = "replicate n (replicate n (0::real))"
  let ?D0 = "diag (map (\<lambda>v. v * (- 2)) (replicate n c)) 0"
  let ?D1 = "diag (butlast (replicate n c)) 1"
  let ?D2 = "diag (butlast (replicate n c)) (- 1)"
  let ?A1 = "map2 (map2 (+)) ?Z ?D0"
  let ?A2 = "map2 (map2 (+)) ?A1 ?D1"
  let ?A3 = "map2 (map2 (+)) ?A2 ?D2"
  have sZ: "square n ?Z" by (rule square_replicate)
  have s0: "square n ?D0" by (rule square_diag) simp
  have s1: "square n ?D1" by (rule square_diag) (use n in simp)
  have s2: "square n ?D2" by (rule square_diag) (use n in simp)
  have sA1: "square n ?A1" by (rule mat_add_square(1)[OF sZ s0])
  have sA2: "square n ?A2" by (rule mat_add_square(1)[OF sA1 s1])
  have sA3: "square n ?A3" by (rule mat_add_square(1)[OF sA2 s2])
  have e0: "?D0 ! i ! j = (if i = j then - 2 * c else 0)" if "i < n" "j < n" for i j
    using that by (simp add: diag_nth)
  have e1: "?D1 ! i ! j = (if j = i + 1 then c else 0)" if "i < n" "j < n" for i j
    using that n by (simp add: diag_nth nth_butlast) 
  have e2: "?D2 ! i ! j = (if i = j + 1 then c else 0)" if "i < n" "j < n" for i j
    using that n by (auto simp add: diag_nth nth_butlast)
  have ent: "?A3 ! i ! j = stencil c i j" if i: "i < n" and j: "j < n" for i j
  proof -
    have "?A3 ! i ! j = ?A2 ! i ! j + ?D2 ! i ! j"
      by (rule mat_add_square(2)[OF sA2 s2 i j])
    also have "?A2 ! i ! j = ?A1 ! i ! j + ?D1 ! i ! j"
      by (rule mat_add_square(2)[OF sA1 s1 i j])
    also have "?A1 ! i ! j = ?Z ! i ! j + ?D0 ! i ! j"
      by (rule mat_add_square(2)[OF sZ s0 i j])
    finally show ?thesis
      unfolding e0[OF i j] e1[OF i j] e2[OF i j] using i j by (simp add: stencil_def)
  qed
  have "?A3 = tridiag n c"
  proof (rule nth_equalityI)
    show "length ?A3 = length (tridiag n c)"
      using squareD(1)[OF sA3] by (simp add: tridiag_def)
  next
    fix i assume "i < length ?A3"
    then have i: "i < n" using squareD(1)[OF sA3] by simp
    show "?A3 ! i = tridiag n c ! i"
    proof (rule nth_equalityI)
      show "length (?A3 ! i) = length (tridiag n c ! i)"
        using squareD(2)[OF sA3 i] i by (simp add: tridiag_def)
    next
      fix j assume "j < length (?A3 ! i)"
      then have j: "j < n" using squareD(2)[OF sA3 i] by simp
      show "?A3 ! i ! j = tridiag n c ! i ! j"
        using ent[OF i j] i j by (simp add: tridiag_def)
    qed
  qed
  then show ?thesis
    by (simp only: mat_iadd_square[OF sZ s0] mat_iadd_square[OF sA1 s1]
        mat_iadd_square[OF sA2 s2] ebind_simps)
qed

lemma interior_grid:
  "butlast (tl (map (grid a b n) [0..<n + 2])) = map (grid a b n) [1..<n + 1]"
  by (rule nth_equalityI) (simp_all add: nth_butlast nth_tl del: upt_Suc)

lemma dirichlet_assemble_closed:
  assumes N: "1 \<le> N" and ab: "a \<noteq> b"
  shows "dirichlet_assemble f a b u_a u_b N =
         Inr (map (grid a b (nat N)) [0..<nat N + 2],
              tridiag (nat N) (1 / ((b - a) / real (nat N + 1))\<^sup>2),
              map (dirichlet_rhs f a b u_a u_b (nat N)) [0..<nat N])"
proof -
  define n where "n = nat N"
  have Nn: "N = int n" and n: "0 < n" using N by (simp_all add: n_def)
  define dx where "dx = (b - a) / real (n + 1)"
  have dx: "dx \<noteq> 0" using ab by (simp add: dx_def)
  have dxN: "(b - a) / of_int (N + 1) = dx" by (simp add: dx_def Nn add.commute)
  have lin: "linspace a b (N + 2) = Inr (map (grid a b n) [0..<n + 2])"
    unfolding Nn by (rule linspace_grid)
  have pd: "py_div (b - a) (of_int (N + 1)) = Inr dx"
    using ab by (simp add: py_div_def dx_def Nn add.commute)
  have z: "zeros2 N N = Inr (replicate n (replicate n 0))"
    by (simp add: zeros2_def Nn)
  have o: "ones N = Inr (replicate n 1)"
    by (simp add: ones_def Nn)
  have diagonal: "map (\<lambda>v. v / dx\<^sup>2) (replicate n 1) = replicate n (1 / dx\<^sup>2)"
    by simp
  define r0 where "r0 = map f (map (grid a b n) [1..<n + 1])"
  have lr0: "length r0 = n" by (simp add: r0_def)
  have r0: "r0 ! i = f (grid a b n (i + 1))" if "i < n" for i
    using that by (simp add: r0_def del: upt_Suc)
  have r: "(r0[0 := r0 ! 0 - u_a / dx\<^sup>2])[n - 1 := (r0[0 := r0 ! 0 - u_a / dx\<^sup>2]) ! (n - 1) - u_b / dx\<^sup>2]
           = map (dirichlet_rhs f a b u_a u_b n) [0..<n]"
  proof (rule nth_equalityI)
    fix i assume "i < length ((r0[0 := r0 ! 0 - u_a / dx\<^sup>2])[n - 1 := (r0[0 := r0 ! 0 - u_a / dx\<^sup>2]) ! (n - 1) - u_b / dx\<^sup>2])"
    then have i: "i < n" by (simp add: lr0)
    have eq: "i + 1 = n \<longleftrightarrow> i = n - 1" using i by auto
    have rd: "dirichlet_rhs f a b u_a u_b n i =
        f (grid a b n (i + 1)) - (if i = 0 then u_a / dx\<^sup>2 else 0)
          - (if i + 1 = n then u_b / dx\<^sup>2 else 0)"
      unfolding dirichlet_rhs_def dx_def ..
    show "(r0[0 := r0 ! 0 - u_a / dx\<^sup>2])[n - 1 := (r0[0 := r0 ! 0 - u_a / dx\<^sup>2]) ! (n - 1) - u_b / dx\<^sup>2] ! i
          = map (dirichlet_rhs f a b u_a u_b n) [0..<n] ! i"
      using i n r0[OF i] r0[OF n]
      by (auto simp: nth_list_update lr0 rd eq)
  qed (simp add: lr0)
  have i0: "py_index n 0 = Inr 0" using n by (simp add: py_index_def)
  have i1: "py_index n (- 1) = Inr (n - 1)" using n by (simp add: py_index_def Let_def nat_diff_distrib)
  have q: "py_div v (dx\<^sup>2) = Inr (v / dx\<^sup>2)" for v
    using dx by (simp add: py_div_def)
  show ?thesis
    unfolding n_def[symmetric] dx_def[symmetric] dirichlet_assemble_def
    apply (simp only: lin ebind_simps Let_def pd z o diagonal tridiag_overlay[OF n] interior_grid)
    apply (simp only: r0_def[symmetric] lr0 length_list_update i0 i1 q ebind_simps r)
    done
qed

lemma tridiag_nth: "i < n \<Longrightarrow> j < n \<Longrightarrow> tridiag n c ! i ! j = stencil c i j"
  by (simp add: tridiag_def)

lemma length_tridiag: "length (tridiag n c) = n"
  by (simp add: tridiag_def)

lemma dot_sum: "length r = length v \<Longrightarrow> dot r v = (\<Sum>j<length v. r ! j * v ! j)"
  by (simp add: dot_def sum_list_sum_nth atLeast0LessThan)

text \<open>A row of the tridiagonal matrix applied to a vector: the three-point stencil.\<close>

lemma dot_tridiag_row:
  assumes i: "i < n" and v: "length v = n"
  shows "dot (tridiag n c ! i) v =
         c * ((if 0 < i then v ! (i - 1) else 0) - 2 * v ! i + (if i + 1 < n then v ! (i + 1) else 0))"
proof -
  have "dot (tridiag n c ! i) v = (\<Sum>j<n. stencil c i j * v ! j)"
    using i v by (simp add: dot_sum tridiag_def)
  also have "\<dots> = (\<Sum>j<n. (if j = i then - 2 * c * v ! j else 0)
                       + (if j = i + 1 then c * v ! j else 0)
                       + (if j = i - 1 \<and> 0 < i then c * v ! j else 0))"
    by (rule sum.cong) (auto simp: stencil_def)
  also have "\<dots> = (\<Sum>j<n. if j = i then - 2 * c * v ! j else 0)
                  + (\<Sum>j<n. if j = i + 1 then c * v ! j else 0)
                  + (\<Sum>j<n. if j = i - 1 \<and> 0 < i then c * v ! j else 0)"
    by (simp add: sum.distrib)
  also have "(\<Sum>j<n. if j = i then - 2 * c * v ! j else 0) = - 2 * c * v ! i"
    using i by simp
  also have "(\<Sum>j<n. if j = i + 1 then c * v ! j else 0) = (if i + 1 < n then c * v ! (i + 1) else 0)"
    by simp
  also have "(\<Sum>j<n. if j = i - 1 \<and> 0 < i then c * v ! j else 0) = (if 0 < i then c * v ! (i - 1) else 0)"
  proof (cases "0 < i")
    case True
    then have "(\<Sum>j<n. if j = i - 1 \<and> 0 < i then c * v ! j else 0) = (\<Sum>j<n. if j = i - 1 then c * v ! j else 0)"
      by simp
    also have "\<dots> = c * v ! (i - 1)"
    proof -
      have "i - 1 < n" using i by simp
      then show ?thesis by simp
    qed
    finally show ?thesis using True by simp
  next
    case False
    then show ?thesis by simp
  qed
  finally show ?thesis by (simp add: algebra_simps)
qed

text \<open>
  A grid function \<open>L\<close> on the points \<open>0..n+1\<close>; its interior values as a vector.
  The product of the matrix with the interior values is the second difference of
  \<open>L\<close>, less the boundary terms in the first and the last row.
\<close>

lemma mat_vec_tridiag_interior:
  assumes n: "0 < n"
  shows "mat_vec (tridiag n c) (map (\<lambda>i. L (i + 1)) [0..<n]) =
         map (\<lambda>i. c * (L i - 2 * L (i + 1) + L (i + 2))
                   - (if i = 0 then c * L 0 else 0)
                   - (if i + 1 = n then c * L (n + 1) else 0)) [0..<n]"
proof (rule nth_equalityI)
  fix i assume "i < length (mat_vec (tridiag n c) (map (\<lambda>i. L (i + 1)) [0..<n]))"
  then have i: "i < n" by (simp add: mat_vec_def length_tridiag)
  have "mat_vec (tridiag n c) (map (\<lambda>i. L (i + 1)) [0..<n]) ! i
        = dot (tridiag n c ! i) (map (\<lambda>i. L (i + 1)) [0..<n])"
    using i by (simp add: mat_vec_def length_tridiag)
  also have "\<dots> = c * ((if 0 < i then L i else 0) - 2 * L (i + 1) + (if i + 1 < n then L (i + 2) else 0))"
    using i by (subst dot_tridiag_row[OF i]) (auto simp del: upt_Suc)
  also have "\<dots> = c * (L i - 2 * L (i + 1) + L (i + 2))
                   - (if i = 0 then c * L 0 else 0)
                   - (if i + 1 = n then c * L (n + 1) else 0)"
    using i by (auto simp: algebra_simps)
  finally show "mat_vec (tridiag n c) (map (\<lambda>i. L (i + 1)) [0..<n]) ! i =
         map (\<lambda>i. c * (L i - 2 * L (i + 1) + L (i + 2))
                   - (if i = 0 then c * L 0 else 0)
                   - (if i + 1 = n then c * L (n + 1) else 0)) [0..<n] ! i"
    using i by simp
qed (simp add: mat_vec_def length_tridiag)

text \<open>A grid function with vanishing second differences and \<open>D 0 = 0\<close> is linear.\<close>

lemma second_difference_zero_linear:
  fixes D :: "nat \<Rightarrow> real"
  assumes D0: "D 0 = 0"
    and rec: "\<And>i. i < n \<Longrightarrow> D i - 2 * D (i + 1) + D (i + 2) = 0"
  shows "k \<le> n + 1 \<Longrightarrow> D k = real k * D 1"
proof (induction k rule: less_induct)
  case (less k)
  show ?case
  proof (cases "k < 2")
    case True
    then have "k = 0 \<or> k = 1" by auto
    then show ?thesis using D0 by auto
  next
    case False
    then obtain i where k: "k = i + 2" by (metis add.commute le_add_diff_inverse not_less)
    with less.prems have i: "i < n" by simp
    have a: "D i = real i * D 1" and b: "D (i + 1) = real (i + 1) * D 1"
      using less.IH[of i] less.IH[of "i + 1"] k less.prems by simp_all
    have "D (i + 2) = 2 * D (i + 1) - D i" using rec[OF i] by simp
    then show ?thesis unfolding k a b by (simp add: algebra_simps)
  qed
qed

text \<open>The matrix is injective: two vectors with the same image are equal.\<close>

lemma tridiag_inj:
  assumes c: "c \<noteq> 0" and v: "length v = n" and w: "length w = n"
    and eq: "mat_vec (tridiag n c) v = mat_vec (tridiag n c) w"
  shows "v = w"
proof -
  define D where "D k = (if k = 0 \<or> n < k then 0 else v ! (k - 1) - w ! (k - 1))" for k
  have D0: "D 0 = 0" by (simp add: D_def)
  have rec: "D i - 2 * D (i + 1) + D (i + 2) = 0" if i: "i < n" for i
  proof -
    have "mat_vec (tridiag n c) v ! i = mat_vec (tridiag n c) w ! i" using eq by simp
    then have "dot (tridiag n c ! i) v = dot (tridiag n c ! i) w"
      using i by (simp add: mat_vec_def length_tridiag)
    then have "c * ((if 0 < i then v ! (i - 1) else 0) - 2 * v ! i + (if i + 1 < n then v ! (i + 1) else 0))
             = c * ((if 0 < i then w ! (i - 1) else 0) - 2 * w ! i + (if i + 1 < n then w ! (i + 1) else 0))"
      by (simp only: dot_tridiag_row[OF i v] dot_tridiag_row[OF i w])
    then have "(if 0 < i then v ! (i - 1) else 0) - 2 * v ! i + (if i + 1 < n then v ! (i + 1) else 0)
             = (if 0 < i then w ! (i - 1) else 0) - 2 * w ! i + (if i + 1 < n then w ! (i + 1) else 0)"
      using c by simp
    then show ?thesis
      using i by (auto simp: D_def split: if_splits)
  qed
  have lin: "D k = real k * D 1" if "k \<le> n + 1" for k
    using second_difference_zero_linear[of D n k, OF D0 rec] that by simp
  have "D (n + 1) = 0" by (simp add: D_def)
  then have "real (n + 1) * D 1 = 0" using lin[of "n + 1"] by simp
  then have D1: "D 1 = 0" by simp
  show ?thesis
  proof (rule nth_equalityI)
    fix i assume "i < length v"
    then have i: "i < n" using v by simp
    have "D (i + 1) = 0" using lin[of "i + 1"] i D1 by simp
    then show "v ! i = w ! i" using i by (simp add: D_def)
  qed (simp add: v w)
qed

lemma dot_zero: "dot r (replicate n 0) = 0"
proof (induction r arbitrary: n)
  case Nil
  then show ?case by (simp add: dot_def)
next
  case (Cons x r)
  then show ?case by (cases n) (simp_all add: dot_def)
qed

lemma mat_vec_zero: "mat_vec A (replicate n 0) = replicate (length A) 0"
  by (rule nth_equalityI) (simp_all add: mat_vec_def dot_zero)

lemma tridiag_regular: "c \<noteq> 0 \<Longrightarrow> \<not> singular (tridiag n c)"
  using tridiag_inj[of c _ n "replicate n 0"]
  by (auto simp: singular_def length_tridiag mat_vec_zero)

lemma exact_solve_tridiag:
  assumes c: "c \<noteq> 0" and ex: "exact_solve_on solve (tridiag n c) rhs"
    and w: "length w = n" "length rhs = n" "mat_vec (tridiag n c) w = rhs"
  shows "solve (tridiag n c) rhs = Inr w"
proof (cases "solve (tridiag n c) rhs")
  case (Inl e)
  then show ?thesis using ex tridiag_regular[OF c] by (simp add: exact_solve_on_def)
next
  case (Inr v)
  then have "length v = n" "mat_vec (tridiag n c) v = mat_vec (tridiag n c) w"
    using ex w by (simp_all add: exact_solve_on_def)
  then have "v = w" using tridiag_inj[OF c _ w(1)] by blast
  then show ?thesis using Inr by simp
qed

lemma dirichlet_fd_solution:
  fixes L :: "nat \<Rightarrow> real"
  assumes N: "1 \<le> N" and ab: "a \<noteq> b"
    and ex: "exact_solve_on solve (tridiag (nat N) (1 / ((b - a) / real (nat N + 1))\<^sup>2))
               (map (dirichlet_rhs f a b u_a u_b (nat N)) [0..<nat N])"
    and L0: "L 0 = u_a" and L1: "L (nat N + 1) = u_b"
    and eqn: "\<And>i. i < nat N \<Longrightarrow>
        (L i - 2 * L (i + 1) + L (i + 2)) / ((b - a) / real (nat N + 1))\<^sup>2 = f (grid a b (nat N) (i + 1))"
  shows "dirichlet_fd solve mem f a b u_a u_b N = Inr (map L [0..<nat N + 2])"
proof -
  define n where "n = nat N"
  have Nn: "N = int n" and n: "0 < n" using N by (simp_all add: n_def)
  define c where "c = 1 / ((b - a) / real (n + 1))\<^sup>2"
  have c: "c \<noteq> 0" using ab by (simp add: c_def)
  have L1': "L (n + 1) = u_b" using L1 by (simp add: n_def)
  define w where "w = map (\<lambda>i. L (i + 1)) [0..<n]"
  define rhs where "rhs = map (dirichlet_rhs f a b u_a u_b n) [0..<n]"
  have "mat_vec (tridiag n c) w = rhs"
    unfolding w_def mat_vec_tridiag_interior[OF n] rhs_def
  proof (rule nth_equalityI)
    fix i assume "i < length (map (\<lambda>i. c * (L i - 2 * L (i + 1) + L (i + 2))
                   - (if i = 0 then c * L 0 else 0)
                   - (if i + 1 = n then c * L (n + 1) else 0)) [0..<n])"
    then have i: "i < n" by simp
    have "c * (L i - 2 * L (i + 1) + L (i + 2)) = f (grid a b n (i + 1))"
      using eqn[of i] i by (simp add: c_def n_def)
    then show "map (\<lambda>i. c * (L i - 2 * L (i + 1) + L (i + 2))
                   - (if i = 0 then c * L 0 else 0)
                   - (if i + 1 = n then c * L (n + 1) else 0)) [0..<n] ! i
        = map (dirichlet_rhs f a b u_a u_b n) [0..<n] ! i"
      using i L0 L1' by (simp add: dirichlet_rhs_def c_def)
  qed simp
  then have sol: "solve (tridiag n c) rhs = Inr w"
    using exact_solve_tridiag[OF c, of solve n rhs w] ex
    by (simp add: w_def rhs_def n_def c_def)
  have asm: "dirichlet_assemble f a b u_a u_b N = Inr (map (grid a b n) [0..<n + 2], tridiag n c, rhs)"
    unfolding n_def c_def rhs_def by (rule dirichlet_assemble_closed[OF N ab])
  have e: "empty1 mem (N + 2) = Inr (map mem [0..<n + 2])"
    by (simp add: empty1_def Nn nat_add_distrib)
  have i0: "py_index (n + 2) 0 = Inr 0" by (simp add: py_index_def)
  have i1: "py_index (n + 2) (- 1) = Inr (n + 1)" by (simp add: py_index_def Let_def nat_add_distrib)
  have fin: "assign_inner ((map mem [0..<n + 2])[0 := u_a, n + 1 := u_b]) w = Inr (map L [0..<n + 2])"
  proof -
    let ?U = "(map mem [0..<n + 2])[0 := u_a, n + 1 := u_b]"
    have "take 1 ?U @ w @ drop (1 + n) ?U = map L [0..<n + 2]"
    proof (rule nth_equalityI)
      fix i assume "i < length (take 1 ?U @ w @ drop (1 + n) ?U)"
      then have i: "i < n + 2" by (simp add: w_def)
      consider "i = 0" | "0 < i" "i \<le> n" | "i = n + 1" using i by linarith
      then show "(take 1 ?U @ w @ drop (1 + n) ?U) ! i = map L [0..<n + 2] ! i"
      proof cases
        case 1
        then show ?thesis using L0 n by (simp add: nth_append nth_list_update del: upt_Suc)
      next
        case 2
        then have "i - 1 < n" "Suc (i - 1) = i" by simp_all
        with 2 show ?thesis by (simp add: nth_append w_def min_def del: upt_Suc)
      next
        case 3
        then show ?thesis using L1' by (simp add: nth_append w_def min_def del: upt_Suc)
      qed
    qed (simp add: w_def)
    then show ?thesis by (simp add: assign_inner_def w_def del: upt_Suc)
  qed
  show ?thesis
    unfolding dirichlet_fd_def n_def[symmetric]
    by (simp only: asm ebind_simps prod.case e length_map length_upt diff_zero i0 i1 Let_def
        length_list_update sol fin)
qed

lemma ebind_Inr_iff: "ebind m k = Inr r \<longleftrightarrow> (\<exists>v. m = Inr v \<and> k v = Inr r)"
  by (cases m) simp_all

text \<open>The assembly raises on every input with \<open>N < 1\<close> or \<open>a = b\<close>.\<close>

lemma dirichlet_assemble_errors:
  "dirichlet_assemble f a b u_a u_b N =
     (if 1 \<le> N then (if a = b then Inl ZeroDivisionError
                      else Inr (map (grid a b (nat N)) [0..<nat N + 2],
                                tridiag (nat N) (1 / ((b - a) / real (nat N + 1))\<^sup>2),
                                map (dirichlet_rhs f a b u_a u_b (nat N)) [0..<nat N]))
      else if N = 0 then Inl IndexError
      else if N = - 1 then Inl ZeroDivisionError
      else Inl ValueError)"
proof -
  consider "1 \<le> N" "a \<noteq> b" | "1 \<le> N" "a = b" | "N = 0" | "N = - 1" | "N = - 2" | "N < - 2"
    by linarith
  then show ?thesis
  proof cases
    case 1
    then show ?thesis using dirichlet_assemble_closed[OF 1] by simp
  next
    case 2
    define n where "n = nat N"
    have Nn: "N = int n" and n: "0 < n" using 2 by (simp_all add: n_def)
    have lin: "linspace a b (N + 2) = Inr (map (grid a b n) [0..<n + 2])"
      unfolding Nn by (rule linspace_grid)
    have pd: "py_div (b - a) (of_int (N + 1)) = Inr 0"
      using 2 by (simp add: py_div_def Nn)
    have z: "zeros2 N N = Inr (replicate n (replicate n 0))"
      by (simp add: zeros2_def Nn)
    have o: "ones N = Inr (replicate n 1)"
      by (simp add: ones_def Nn)
    have diagonal: "map (\<lambda>v. v / 0\<^sup>2) (replicate n 1) = replicate n (1 / 0\<^sup>2)"
      by simp
    have i0: "py_index (length (map f (map (grid a b n) [1..<n + 1]))) 0 = Inr 0"
      using n by (simp add: py_index_def)
    have q: "py_div u_a (0\<^sup>2) = Inl ZeroDivisionError"
      by (simp add: py_div_def)
    have "dirichlet_assemble f a b u_a u_b N = Inl ZeroDivisionError"
      unfolding dirichlet_assemble_def
      by (simp only: lin ebind_simps Let_def pd z o diagonal tridiag_overlay[OF n] interior_grid i0 q)
    then show ?thesis using 2 by simp
  next
    case 3
    then show ?thesis
      by (simp add: dirichlet_assemble_def linspace_def py_div_def zeros2_def ones_def diag_def
          mat_iadd_def py_index_def Let_def numeral_2_eq_2)
  next
    case 4
    then show ?thesis
      by (simp add: dirichlet_assemble_def linspace_def py_div_def Let_def)
  next
    case 5
    then show ?thesis
      by (simp add: dirichlet_assemble_def linspace_def py_div_def zeros2_def Let_def)
  next
    case 6
    then show ?thesis
      by (simp add: dirichlet_assemble_def linspace_def)
  qed
qed

lemma square_upd: "square m A \<Longrightarrow> square m (upd A r c v)"
proof -
  assume s: "square m A"
  have "map length (upd A r c v) = map length A"
  proof (cases "r < length A")
    case True
    have "map length (upd A r c v) = (map length A)[r := map length A ! r]"
      using True by (simp add: upd_def map_update)
    then show ?thesis by (simp only: list_update_id)
  next
    case False
    then show ?thesis by (simp add: upd_def list_update_beyond)
  qed
  with s show ?thesis by (simp add: square_def)
qed

lemma upd_nth:
  assumes "square m A" "i < m" "j < m"
  shows "upd A r c v ! i ! j = (if i = r \<and> j = c then v else A ! i ! j)"
proof (cases "i = r")
  case True
  then show ?thesis
    using assms squareD[OF assms(1)] by (simp add: upd_def nth_list_update)
next
  case False
  then show ?thesis by (simp add: upd_def)
qed

lemma length_mixed_matrix: "length (mixed_matrix n dx) = n + 2"
  by (simp add: mixed_matrix_def del: upt_Suc)

lemma length_mixed_matrix_row: "i < n + 2 \<Longrightarrow> length (mixed_matrix n dx ! i) = n + 2"
  by (simp add: mixed_matrix_def del: upt_Suc)

lemma mixed_matrix_nth:
  "i < n + 2 \<Longrightarrow> j < n + 2 \<Longrightarrow> mixed_matrix n dx ! i ! j =
     (if i = 0 then (if j = 0 then 1 else 0)
       else if i = n + 1 then
         (if j + 2 = n + 1 then 1 / (2 * dx)
          else if j + 1 = n + 1 then - 4 / (2 * dx)
          else if j = n + 1 then 3 / (2 * dx)
          else 0)
       else stencil (1 / dx\<^sup>2) i j)"
  by (simp add: mixed_matrix_def del: upt_Suc)

lemma mat_set_square:
  assumes "square m A" and "py_index m i = Inr r" and "py_index m j = Inr c"
  shows "mat_set A i j v = Inr (upd A r c v)"
proof -
  have "r < m" using assms(2) by (auto simp: py_index_def Let_def split: if_splits)
  then show ?thesis
    using assms squareD[OF assms(1)] by (simp add: mat_set_def upd_def)
qed

lemma mixed_assemble_closed:
  assumes N: "1 \<le> N" and ab: "a \<noteq> b"
  shows "mixed_assemble f a b u_a u_x_b N =
         Inr (map (grid a b (nat N)) [0..<nat N + 2],
              mixed_matrix (nat N) ((b - a) / real (nat N + 1)),
              map (mixed_rhs f a b u_a u_x_b (nat N)) [0..<nat N + 2])"
proof -
  define n where "n = nat N"
  have Nn: "N = int n" and n: "0 < n" using N by (simp_all add: n_def)
  define m where "m = n + 2"
  have m: "0 < m" "2 < m" by (simp_all add: m_def n)
  define dx where "dx = (b - a) / real (n + 1)"
  have dx: "dx \<noteq> 0" using ab by (simp add: dx_def)
  define c where "c = 1 / dx\<^sup>2"
  have lin: "linspace a b (N + 2) = Inr (map (grid a b n) [0..<n + 2])"
    unfolding Nn by (rule linspace_grid)
  have pd: "py_div (b - a) (of_int (N + 1)) = Inr dx"
    using ab by (simp add: py_div_def dx_def Nn add.commute)
  have z: "zeros2 (N + 2) (N + 2) = Inr (replicate m (replicate m 0))"
    by (simp add: zeros2_def Nn m_def nat_add_distrib)
  have o: "ones (N + 2) = Inr (replicate m 1)"
    by (simp add: ones_def Nn m_def nat_add_distrib)
  have diagonal: "map (\<lambda>v. v / dx\<^sup>2) (replicate m 1) = replicate m c"
    by (simp add: c_def)
  have q: "py_div v (2 * dx) = Inr (v / (2 * dx))" for v
    using dx by (simp add: py_div_def)
  let ?T = "tridiag m c"
  let ?A1 = "upd ?T 0 0 1"
  let ?A2 = "upd ?A1 0 1 0"
  let ?A3 = "upd ?A2 (m - 1) (m - 1) (3 / (2 * dx))"
  let ?A4 = "upd ?A3 (m - 1) (m - 2) (- 4 / (2 * dx))"
  let ?A5 = "upd ?A4 (m - 1) (m - 3) (1 / (2 * dx))"
  have sT: "square m ?T" by (rule square_tridiag)
  have s1: "square m ?A1" by (rule square_upd[OF sT])
  have s2: "square m ?A2" by (rule square_upd[OF s1])
  have s3: "square m ?A3" by (rule square_upd[OF s2])
  have s4: "square m ?A4" by (rule square_upd[OF s3])
  have s5: "square m ?A5" by (rule square_upd[OF s4])
  have p0: "py_index m 0 = Inr 0" using m by (simp add: py_index_def)
  have p1: "py_index m 1 = Inr 1" using m by (simp add: py_index_def)
  have pm1: "py_index m (- 1) = Inr (m - 1)" using m by (simp add: py_index_def nat_diff_distrib)
  have pm2: "py_index m (- 2) = Inr (m - 2)" using m by (simp add: py_index_def nat_diff_distrib)
  have pm3: "py_index m (- 3) = Inr (m - 3)" using m by (simp add: py_index_def nat_diff_distrib)
  have A5: "?A5 = mixed_matrix n dx"
  proof (rule nth_equalityI)
    show "length ?A5 = length (mixed_matrix n dx)"
      using squareD(1)[OF s5] by (simp add: length_mixed_matrix m_def)
  next
    fix i assume "i < length ?A5"
    then have i: "i < m" using squareD(1)[OF s5] by simp
    show "?A5 ! i = mixed_matrix n dx ! i"
    proof (rule nth_equalityI)
      show "length (?A5 ! i) = length (mixed_matrix n dx ! i)"
        using squareD(2)[OF s5 i] i by (simp add: length_mixed_matrix_row m_def)
    next
      fix j assume "j < length (?A5 ! i)"
      then have j: "j < m" using squareD(2)[OF s5 i] by simp
      have "?A5 ! i ! j =
          (if i = m - 1 \<and> j = m - 3 then 1 / (2 * dx)
           else if i = m - 1 \<and> j = m - 2 then - 4 / (2 * dx)
           else if i = m - 1 \<and> j = m - 1 then 3 / (2 * dx)
           else if i = 0 \<and> j = 1 then 0
           else if i = 0 \<and> j = 0 then 1
           else stencil c i j)"
        by (simp only: upd_nth[OF s4 i j] upd_nth[OF s3 i j] upd_nth[OF s2 i j]
            upd_nth[OF s1 i j] upd_nth[OF sT i j] tridiag_nth[OF i j])
      also have "\<dots> = mixed_matrix n dx ! i ! j"
      proof -
        have ij: "i < n + 2" "j < n + 2" using i j by (simp_all add: m_def)
        show ?thesis
          unfolding mixed_matrix_nth[OF ij] using n ij
          by (auto simp: m_def c_def stencil_def)
      qed
      finally show "?A5 ! i ! j = mixed_matrix n dx ! i ! j" .
    qed
  qed
  define r0 where "r0 = map f (map (grid a b n) [0..<n + 2])"
  have lr0: "length r0 = m" by (simp add: r0_def m_def)
  have r: "r0[0 := u_a, m - 1 := u_x_b] = map (mixed_rhs f a b u_a u_x_b n) [0..<n + 2]"
    using n
    by (intro nth_equalityI)
       (auto simp: lr0 m_def nth_list_update mixed_rhs_def r0_def simp del: upt_Suc)
  show ?thesis
    unfolding n_def[symmetric] dx_def[symmetric] mixed_assemble_def
    apply (simp only: lin ebind_simps Let_def pd z o diagonal tridiag_overlay[OF m(1)] q)
    apply (simp only: mat_set_square[OF sT p0 p0] mat_set_square[OF s1 p0 p1]
        mat_set_square[OF s2 pm1 pm1] mat_set_square[OF s3 pm1 pm2] mat_set_square[OF s4 pm1 pm3]
        ebind_simps A5 r0_def[symmetric] lr0 length_list_update p0 pm1 r)
    done
qed

lemma py_index_Inr_iff:
  "py_index n i = Inr k \<longleftrightarrow> (if i < 0 then 0 \<le> int n + i \<and> k = nat (int n + i) else i < int n \<and> k = nat i)"
  by (auto simp: py_index_def Let_def)

lemma py_index_first: "py_index n 0 = Inr k \<longleftrightarrow> 0 < n \<and> k = 0"
  by (auto simp: py_index_Inr_iff)

lemma py_index_last: "py_index n (- 1) = Inr k \<longleftrightarrow> 0 < n \<and> k = n - 1"
  by (auto simp: py_index_Inr_iff)

lemma py_index_nat: "py_index n (int i) = Inr k \<longleftrightarrow> i < n \<and> k = i"
  by (auto simp: py_index_Inr_iff)

lemma march_length:
  "march api s i xs u = Inr u' \<Longrightarrow> length (fst u') = length (fst u) \<and> length (snd u') = length (snd u)"
proof (induction xs arbitrary: s i u)
  case Nil
  then show ?case by simp
next
  case (Cons x xs)
  then show ?case by (fastforce simp: Let_def split: if_splits)
qed

lemma march_error: "march api s i xs u = Inl e \<Longrightarrow> e = integration_failed"
proof (induction xs arbitrary: s i u)
  case Nil
  then show ?case by simp
next
  case (Cons x xs)
  then show ?case by (auto simp: Let_def split: if_splits)
qed

text \<open>What one pass through the loop body does when it raises nothing.\<close>

lemma shoot_iteration_Inr:
  assumes "shoot_iteration api x u_a u_b n st = Inr (brk, st')"
  shows "n < length (convergence st)"
    and "convergence st' = (convergence st)[n := \<bar>last (fst (u_arr st')) - u_b\<bar>]"
    and "brk \<longleftrightarrow> \<bar>last (fst (u_arr st')) - u_b\<bar> < TOLERANCE"
    and "success st' \<longleftrightarrow> success st \<or> brk"
    and "n_last st' = Some n"
    and "u_prime_rhs st' =
           (if brk then u_prime_rhs st
            else if last (fst (u_arr st')) < u_b then u_prime_rhs st + du_prime st
            else u_prime_rhs st - du_prime st)"
    and "du_prime st' =
           (if brk \<or> last (fst (u_arr st')) < u_b then du_prime st else du_prime st * (1 / 2))"
    and "fst (u_arr st') \<noteq> []"
    and "length (fst (u_arr st')) = length (fst (u_arr st))"
    and "length (snd (u_arr st')) = length (snd (u_arr st))"
proof -
  from assms obtain u where
    pos: "0 < length (fst (u_arr st))"
    and m: "march api (ode_init api (((fst (u_arr st))[0 := u_a]) ! 0, ((snd (u_arr st))[0 := u_prime_rhs st]) ! 0))
              0 (tl x) ((fst (u_arr st))[0 := u_a], (snd (u_arr st))[0 := u_prime_rhs st]) = Inr u"
    and pu: "0 < length (fst u)"
    and n: "n < length (convergence st)"
    and r: "stopping_criteria u_b n (fst u ! (length (fst u) - 1)) (st\<lparr>u_arr := u, n_last := Some n\<rparr>) = (brk, st')"
    unfolding shoot_iteration_def
    by (auto simp: ebind_Inr_iff py_index_first py_index_last py_index_nat Let_def)
  have l: "fst u ! (length (fst u) - 1) = last (fst u)"
    using pu by (simp add: last_conv_nth)
  have ua: "u_arr st' = u"
    using r by (auto simp: stopping_criteria_def Let_def split: if_splits)
  note ml = march_length[OF m]
  show "n < length (convergence st)" by (rule n)
  show "convergence st' = (convergence st)[n := \<bar>last (fst (u_arr st')) - u_b\<bar>]"
    using r unfolding ua l by (auto simp: stopping_criteria_def Let_def split: if_splits)
  show "brk \<longleftrightarrow> \<bar>last (fst (u_arr st')) - u_b\<bar> < TOLERANCE"
    using r unfolding ua l by (auto simp: stopping_criteria_def Let_def split: if_splits)
  show "success st' \<longleftrightarrow> success st \<or> brk"
    using r unfolding ua l by (auto simp: stopping_criteria_def Let_def split: if_splits)
  show "n_last st' = Some n"
    using r unfolding ua l by (auto simp: stopping_criteria_def Let_def split: if_splits)
  show "u_prime_rhs st' =
           (if brk then u_prime_rhs st
            else if last (fst (u_arr st')) < u_b then u_prime_rhs st + du_prime st
            else u_prime_rhs st - du_prime st)"
    using r unfolding ua l by (auto simp: stopping_criteria_def Let_def split: if_splits)
  show "du_prime st' =
           (if brk \<or> last (fst (u_arr st')) < u_b then du_prime st else du_prime st * (1 / 2))"
    using r unfolding ua l by (auto simp: stopping_criteria_def Let_def split: if_splits)
  show "fst (u_arr st') \<noteq> []" using pu ua by auto
  show "length (fst (u_arr st')) = length (fst (u_arr st))" using ml ua by simp
  show "length (snd (u_arr st')) = length (snd (u_arr st))" using ml ua by simp
qed

lemma march_Inl_iff:
  "march api s i xs u = Inl integration_failed \<longleftrightarrow>
   list_ex (\<lambda>s. \<not> ode_successful api s) (ode_run api s xs)"
  by (induction xs arbitrary: s i u) (simp_all add: Let_def)

lemma shoot_iteration_integration_failure:
  assumes "fst (u_arr st) \<noteq> []" "snd (u_arr st) \<noteq> []"
    and "list_ex (\<lambda>s. \<not> ode_successful api s) (ode_run api (ode_init api (u_a, u_prime_rhs st)) (tl x))"
  shows "shoot_iteration api x u_a u_b n st = Inl integration_failed"
proof -
  have i: "py_index (length (fst (u_arr st))) 0 = Inr 0"
    using assms(1) by (simp add: py_index_def)
  have "march api (ode_init api (u_a, u_prime_rhs st)) 0 (tl x)
          ((fst (u_arr st))[0 := u_a], (snd (u_arr st))[0 := u_prime_rhs st])
        = Inl integration_failed"
    using assms(3) by (simp only: march_Inl_iff)
  then show ?thesis
    using assms(1,2) by (simp add: shoot_iteration_def i Let_def)
qed

lemma shoot_loop_append:
  "shoot_loop api x u_a u_b ns1 st = Inr st1 \<Longrightarrow> \<not> success st1 \<Longrightarrow>
   shoot_loop api x u_a u_b (ns1 @ ns2) st = shoot_loop api x u_a u_b ns2 st1"
proof (induction ns1 arbitrary: st)
  case Nil
  then show ?case by simp
next
  case (Cons n ns1)
  from Cons.prems(1) obtain brk st' where it: "shoot_iteration api x u_a u_b n st = Inr (brk, st')"
    by (auto split: sum.splits)
  show ?case
  proof (cases brk)
    case True
    with it Cons.prems(1) have "st1 = st'" by simp
    moreover have "success st'" using shoot_iteration_Inr(4)[OF it] True by simp
    ultimately show ?thesis using Cons.prems(2) by simp
  next
    case False
    with it Cons.prems(1) have "shoot_loop api x u_a u_b ns1 st' = Inr st1" by simp
    from Cons.IH[OF this Cons.prems(2)] show ?thesis using it False by simp
  qed
qed

lemma shoot_loop_trace:
  "shoot_loop api x u_a u_b ns st = Inr st' \<Longrightarrow> \<not> success st \<Longrightarrow> distinct ns \<Longrightarrow>
   length (convergence st') = length (convergence st)
   \<and> (\<forall>i. i \<notin> set ns \<longrightarrow> convergence st' ! i = convergence st ! i)
   \<and> trace_ok u_b ns st'"
proof (induction ns arbitrary: st)
  case Nil
  then show ?case by (simp add: trace_ok_def)
next
  case (Cons n ns)
  from Cons.prems(1) obtain brk st1 where it: "shoot_iteration api x u_a u_b n st = Inr (brk, st1)"
    by (auto split: sum.splits)
  note f = shoot_iteration_Inr[OF it]
  have n: "n \<notin> set ns" and d: "distinct ns" using Cons.prems(3) by simp_all
  have res1: "convergence st1 ! n = \<bar>last (fst (u_arr st1)) - u_b\<bar>"
    using f(1,2) by simp
  show ?case
  proof (cases brk)
    case True
    with it Cons.prems(1) have st': "st' = st1" by simp
    have "success st1" using f(4) True by simp
    moreover have "convergence st1 ! n < TOLERANCE"
      using res1 f(3) True by simp
    ultimately have "trace_ok u_b (n # ns) st1"
      using f(5) res1 by (simp add: trace_ok_def)
    moreover have "\<forall>i. i \<notin> set (n # ns) \<longrightarrow> convergence st1 ! i = convergence st ! i"
      using f(2) by simp
    ultimately show ?thesis using f(2) st' by simp
  next
    case False
    with it Cons.prems(1) have run: "shoot_loop api x u_a u_b ns st1 = Inr st'" by simp
    have ns1: "\<not> success st1" using f(4) False Cons.prems(2) by simp
    have r1: "TOLERANCE \<le> convergence st1 ! n" using res1 f(3) False by simp
    from Cons.IH[OF run ns1 d]
    have len: "length (convergence st') = length (convergence st1)"
      and same: "\<And>i. i \<notin> set ns \<Longrightarrow> convergence st' ! i = convergence st1 ! i"
      and tr: "trace_ok u_b ns st'" by blast+
    have r: "TOLERANCE \<le> convergence st' ! n"
      using same[OF n] r1 by simp
    have "trace_ok u_b (n # ns) st'"
    proof (cases "ns = []")
      case True
      with run have "st' = st1" by simp
      then show ?thesis using True r1 res1 ns1 f(5) by (simp add: trace_ok_def)
    next
      case ne: False
      with tr obtain j where j: "j \<in> set ns" "n_last st' = Some j"
        "convergence st' ! j = \<bar>last (fst (u_arr st')) - u_b\<bar>"
        "success st' \<longleftrightarrow> convergence st' ! j < TOLERANCE"
        "list_all (\<lambda>i. TOLERANCE \<le> convergence st' ! i) (takeWhile (\<lambda>i. i \<noteq> j) ns)"
        "success st' \<or> j = last ns"
        unfolding trace_ok_def by blast
      have "n \<noteq> j" using j(1) n by auto
      then have "list_all (\<lambda>i. TOLERANCE \<le> convergence st' ! i) (takeWhile (\<lambda>i. i \<noteq> j) (n # ns))"
        using j(5) r by simp
      moreover have "success st' \<or> j = last (n # ns)" using j(6) ne by simp
      ultimately show ?thesis using j(1,2,3,4) unfolding trace_ok_def by auto
    qed
    moreover have "\<forall>i. i \<notin> set (n # ns) \<longrightarrow> convergence st' ! i = convergence st ! i"
      using same f(2) by simp
    ultimately show ?thesis using len f(2) by simp
  qed
qed


text \<open>Uninitialised memory: the march overwrites every column after column \<open>i\<close>.\<close>

lemma march_mem:
  assumes "length p = length p'" "length q = length q'"
    and "\<forall>j<length p. j \<le> i \<longrightarrow> p ! j = p' ! j"
    and "\<forall>j<length q. j \<le> i \<longrightarrow> q ! j = q' ! j"
    and "length p \<le> Suc i + length xs" "length q \<le> Suc i + length xs"
  shows "march api s i xs (p, q) = march api s i xs (p', q')"
  using assms
proof (induction xs arbitrary: s i p q p' q')
  case Nil
  have "p = p'" using Nil by (intro nth_equalityI) auto
  moreover have "q = q'" using Nil by (intro nth_equalityI) auto
  ultimately show ?case by simp
next
  case (Cons x xs)
  let ?s = "ode_integrate api s x"
  have "march api ?s (Suc i) xs (p[Suc i := fst (ode_y api ?s)], q[Suc i := snd (ode_y api ?s)])
      = march api ?s (Suc i) xs (p'[Suc i := fst (ode_y api ?s)], q'[Suc i := snd (ode_y api ?s)])"
    using Cons.prems
    by (intro Cons.IH) (auto simp: nth_list_update le_Suc_eq)
  then show ?case by (simp add: Let_def)
qed

lemma shoot_iteration_mem:
  assumes "length (fst (u_arr st)) = length x" "length (snd (u_arr st)) = length x"
    and "length (fst w) = length x" "length (snd w) = length x"
  shows "shoot_iteration api x u_a u_b n (st\<lparr>u_arr := w\<rparr>) = shoot_iteration api x u_a u_b n st"
proof (cases "x = []")
  case True
  then show ?thesis using assms by (simp add: shoot_iteration_def py_index_def)
next
  case False
  then obtain x0 xs where x: "x = x0 # xs" by (cases x) auto
  have i: "py_index (length x) 0 = Inr 0" using False by (simp add: py_index_def)
  have m: "march api s 0 (tl x) ((fst w)[0 := u_a], (snd w)[0 := v])
         = march api s 0 (tl x) ((fst (u_arr st))[0 := u_a], (snd (u_arr st))[0 := v])" for s v
    using assms unfolding x by (intro march_mem) auto
  have nz: "fst w \<noteq> []" "snd w \<noteq> []" "fst (u_arr st) \<noteq> []" "snd (u_arr st) \<noteq> []"
    using assms False by auto
  have h: "l[0 := v] ! 0 = v" if "l \<noteq> []" for l :: vec and v
    using that by (cases l) simp_all
  show ?thesis
    by (simp add: shoot_iteration_def assms i Let_def m h[OF nz(1)] h[OF nz(2)] h[OF nz(3)] h[OF nz(4)])
qed

lemma linspace_Inr: "0 \<le> N \<Longrightarrow> \<exists>x. linspace a b N = Inr x \<and> length x = nat N"
  by (simp add: linspace_def Let_def)

lemma linspace_length: "linspace a b N = Inr x \<Longrightarrow> 0 \<le> N \<and> length x = nat N"
  by (auto simp: linspace_def Let_def split: if_splits)

text \<open>The cell is the loop, started in the state the lines before it build.\<close>

lemma shooting_unfold:
  assumes "linspace a b N = Inr x"
  shows "shooting api mem a b N u_a u_b s0 ds0 =
         shoot_loop api x u_a u_b [0..<MAX_ITERATIONS]
           \<lparr>u_prime_rhs = s0, du_prime = ds0, success = False,
            u_arr = (map mem [0..<nat N], map (\<lambda>c. mem (nat N + c)) [0..<nat N]),
            convergence = replicate MAX_ITERATIONS 0, n_last = None\<rparr>"
  using assms linspace_length[OF assms]
  by (simp add: shooting_def empty2_def zeros_def)

lemma takeWhile_upt: "j < m \<Longrightarrow> takeWhile (\<lambda>i. i \<noteq> j) [0..<m] = [0..<j]"
proof (induction m)
  case 0
  then show ?case by simp
next
  case (Suc m)
  show ?case
  proof (cases "j = m")
    case True
    have "takeWhile (\<lambda>i. i \<noteq> m) ([0..<m] @ [m]) = [0..<m] @ takeWhile (\<lambda>i. i \<noteq> m) [m]"
      by (rule takeWhile_append2) simp
    with True show ?thesis by simp
  next
    case False
    with Suc have "takeWhile (\<lambda>i. i \<noteq> j) [0..<m] = [0..<j]" "j \<in> set [0..<m]" by simp_all
    then show ?thesis by (simp add: takeWhile_append1[where x = j])
  qed
qed

lemma list_all_take: "j \<le> length c \<Longrightarrow> list_all (\<lambda>i. P (c ! i)) [0..<j] \<Longrightarrow> list_all P (take j c)"
  by (simp add: list_all_length)

lemma shooting_trace:
  assumes "shooting api mem a b N u_a u_b s0 ds0 = Inr fin"
  shows "length (convergence fin) = MAX_ITERATIONS
       \<and> (\<exists>m<MAX_ITERATIONS. n_last fin = Some m
            \<and> convergence fin ! m = \<bar>last (fst (u_arr fin)) - u_b\<bar>
            \<and> (success fin \<longleftrightarrow> convergence fin ! m < TOLERANCE)
            \<and> list_all (\<lambda>r. TOLERANCE \<le> r) (take m (convergence fin))
            \<and> (success fin \<or> m = MAX_ITERATIONS - 1))"
proof -
  from assms obtain x where x: "linspace a b N = Inr x"
    by (auto simp: shooting_def ebind_Inr_iff)
  let ?st0 = "\<lparr>u_prime_rhs = s0, du_prime = ds0, success = False,
            u_arr = (map mem [0..<nat N], map (\<lambda>c. mem (nat N + c)) [0..<nat N]),
            convergence = replicate MAX_ITERATIONS 0, n_last = None\<rparr>"
  have run: "shoot_loop api x u_a u_b [0..<MAX_ITERATIONS] ?st0 = Inr fin"
    using assms unfolding shooting_unfold[OF x] .
  from shoot_loop_trace[OF run]
  have len: "length (convergence fin) = MAX_ITERATIONS"
    and tr: "trace_ok u_b [0..<MAX_ITERATIONS] fin" by simp_all
  have ne: "[0..<MAX_ITERATIONS] \<noteq> []" by (simp add: MAX_ITERATIONS_def)
  with tr obtain j where jm: "j \<in> set [0..<MAX_ITERATIONS]" and j': "n_last fin = Some j"
        "convergence fin ! j = \<bar>last (fst (u_arr fin)) - u_b\<bar>"
        "success fin \<longleftrightarrow> convergence fin ! j < TOLERANCE"
        "list_all (\<lambda>i. TOLERANCE \<le> convergence fin ! i) (takeWhile (\<lambda>i. i \<noteq> j) [0..<MAX_ITERATIONS])"
        "success fin \<or> j = last [0..<MAX_ITERATIONS]"
    unfolding trace_ok_def by blast
  have j: "j < MAX_ITERATIONS" using jm by simp
  note j = j j'
  have "list_all (\<lambda>r. TOLERANCE \<le> r) (take j (convergence fin))"
    using j(5) j(1) len by (intro list_all_take) (simp_all add: takeWhile_upt)
  moreover have "last [0..<MAX_ITERATIONS] = MAX_ITERATIONS - 1"
    by (simp add: MAX_ITERATIONS_def)
  ultimately show ?thesis using len j by auto
qed

text \<open>The only exception the loop can raise on a non-empty grid is the integrator's.\<close>

lemma shoot_iteration_Inl:
  assumes "shoot_iteration api x u_a u_b n st = Inl e"
    and "fst (u_arr st) \<noteq> []" and "n < length (convergence st)"
  shows "e = integration_failed"
proof -
  have i: "py_index (length (fst (u_arr st))) 0 = Inr 0"
    using assms(2) by (simp add: py_index_def)
  have k: "py_index (length (convergence st)) (int n) = Inr n"
    using assms(3) by (simp add: py_index_def)
  let ?m = "march api (ode_init api (((fst (u_arr st))[0 := u_a]) ! 0, ((snd (u_arr st))[0 := u_prime_rhs st]) ! 0))
              0 (tl x) ((fst (u_arr st))[0 := u_a], (snd (u_arr st))[0 := u_prime_rhs st])"
  show ?thesis
  proof (cases ?m)
    case (Inl e')
    then have "e' = e" using assms(1) by (simp add: shoot_iteration_def i Let_def)
    with march_error[OF Inl] show ?thesis by simp
  next
    case (Inr u)
    from march_length[OF Inr] assms(2) have "py_index (length (fst u)) (- 1) = Inr (length (fst u) - 1)"
      by (simp add: py_index_last)
    with Inr show ?thesis using assms(1) by (simp add: shoot_iteration_def i k Let_def)
  qed
qed

lemma shoot_loop_Inl:
  "shoot_loop api x u_a u_b ns st = Inl e \<Longrightarrow> fst (u_arr st) \<noteq> [] \<Longrightarrow>
   \<forall>n\<in>set ns. n < length (convergence st) \<Longrightarrow> e = integration_failed"
proof (induction ns arbitrary: st)
  case Nil
  then show ?case by simp
next
  case (Cons n ns)
  show ?case
  proof (cases "shoot_iteration api x u_a u_b n st")
    case (Inl e')
    with Cons.prems(1) have "e' = e" by simp
    with Inl show ?thesis using shoot_iteration_Inl[of api x u_a u_b n st e] Cons.prems by simp
  next
    case (Inr r)
    obtain brk st1 where r: "r = (brk, st1)" by (cases r)
    note f = shoot_iteration_Inr[OF Inr[unfolded r]]
    from Cons.prems(1) Inr r have "\<not> brk" and run: "shoot_loop api x u_a u_b ns st1 = Inl e"
      by (auto split: if_splits)
    show ?thesis
      using Cons.IH[OF run] f(2,8) Cons.prems(3) by simp
  qed
qed

lemma shoot_loop_lengths:
  "shoot_loop api x u_a u_b ns st = Inr st' \<Longrightarrow>
   length (fst (u_arr st')) = length (fst (u_arr st)) \<and>
   length (snd (u_arr st')) = length (snd (u_arr st))"
proof (induction ns arbitrary: st)
  case Nil
  then show ?case by simp
next
  case (Cons n ns)
  from Cons.prems(1) obtain brk st1 where it: "shoot_iteration api x u_a u_b n st = Inr (brk, st1)"
    by (auto split: sum.splits)
  note f = shoot_iteration_Inr[OF it]
  show ?case
  proof (cases brk)
    case True
    with it Cons.prems(1) have "st' = st1" by simp
    then show ?thesis using f(9,10) by simp
  next
    case False
    with it Cons.prems(1) have "shoot_loop api x u_a u_b ns st1 = Inr st'" by simp
    from Cons.IH[OF this] show ?thesis using f(9,10) by simp
  qed
qed

lemma upt_split:
  assumes "k < m"
  shows "[0..<m] = [0..<k] @ k # [Suc k..<m]"
proof -
  have "[0..<k + (m - k)] = [0..<k] @ [k..<k + (m - k)]"
    by (rule upt_add_eq_append) simp
  moreover have "[k..<m] = k # [Suc k..<m]"
    using assms by (rule upt_conv_Cons)
  ultimately show ?thesis using assms by simp
qed

text \<open>The cell's result does not depend on what the uninitialised array held.\<close>

lemma shoot_loop_mem:
  assumes "length (fst (u_arr st)) = length x" "length (snd (u_arr st)) = length x"
    and "length (fst w) = length x" "length (snd w) = length x"
  shows "shoot_loop api x u_a u_b (n # ns) (st\<lparr>u_arr := w\<rparr>) = shoot_loop api x u_a u_b (n # ns) st"
  by (simp add: shoot_iteration_mem[OF assms])

lemma shooting_mem:
  "shooting api mem1 a b N u_a u_b s0 ds0 = shooting api mem2 a b N u_a u_b s0 ds0"
proof (cases "linspace a b N")
  case (Inl e)
  then show ?thesis by (simp add: shooting_def)
next
  case (Inr x)
  note l = linspace_length[OF Inr]
  have ne: "[0..<MAX_ITERATIONS] = 0 # [1..<MAX_ITERATIONS]"
    by (simp add: MAX_ITERATIONS_def upt_conv_Cons)
  let ?st = "\<lambda>mem. \<lparr>u_prime_rhs = s0, du_prime = ds0, success = False,
                u_arr = (map mem [0..<nat N], map (\<lambda>c. mem (nat N + c)) [0..<nat N]),
                convergence = replicate MAX_ITERATIONS 0, n_last = None\<rparr>"
  have "?st mem1 = (?st mem2)\<lparr>u_arr := (map mem1 [0..<nat N], map (\<lambda>c. mem1 (nat N + c)) [0..<nat N])\<rparr>"
    by simp
  then have "shoot_loop api x u_a u_b (0 # [1..<MAX_ITERATIONS]) (?st mem1)
           = shoot_loop api x u_a u_b (0 # [1..<MAX_ITERATIONS]) (?st mem2)"
    using l by (simp only: shoot_loop_mem) (subst shoot_loop_mem, simp_all)
  then show ?thesis
    unfolding shooting_unfold[OF Inr] ne .
qed

lemma boundary_cells:
  fixes U0 :: vec
  assumes "length U0 = n + 2"
  shows "take 1 (U0[0 := u_a, n + 1 := u_b]) = [u_a]"
    and "drop (1 + n) (U0[0 := u_a, n + 1 := u_b]) = [u_b]"
proof -
  let ?U = "U0[0 := u_a, n + 1 := u_b]"
  have l: "length ?U = n + 2" using assms by simp
  show "take 1 ?U = [u_a]"
    using l by (intro nth_equalityI) (auto simp: nth_list_update)
  show "drop (1 + n) ?U = [u_b]"
    using l by (intro nth_equalityI) (auto simp: nth_list_update)
qed

text \<open>The whole Dirichlet cell, on every input.\<close>

lemma dirichlet_fd_unfold:
  "dirichlet_fd solve mem f a b u_a u_b N =
     (if 1 \<le> N \<and> a \<noteq> b then
        ebind (solve (tridiag (nat N) (1 / ((b - a) / real (nat N + 1))\<^sup>2))
                     (map (dirichlet_rhs f a b u_a u_b (nat N)) [0..<nat N])) (\<lambda>v.
          if length v = nat N then Inr (u_a # v @ [u_b])
          else if length v = 1 then Inr (u_a # replicate (nat N) (hd v) @ [u_b])
          else Inl ValueError)
      else if 1 \<le> N then Inl ZeroDivisionError
      else if N = 0 then Inl IndexError
      else if N = - 1 then Inl ZeroDivisionError
      else Inl ValueError)"
proof (cases "1 \<le> N \<and> a \<noteq> b")
  case False
  then show ?thesis
    by (simp add: dirichlet_fd_def dirichlet_assemble_errors)
next
  case True
  define n where "n = nat N"
  have Nn: "N = int n" and n: "0 < n" using True by (simp_all add: n_def)
  have e: "empty1 mem (N + 2) = Inr (map mem [0..<n + 2])"
    by (simp add: empty1_def Nn nat_add_distrib)
  have i0: "py_index (n + 2) 0 = Inr 0" by (simp add: py_index_def)
  have i1: "py_index (n + 2) (- 1) = Inr (n + 1)" by (simp add: py_index_def Let_def nat_add_distrib)
  have l: "length (map mem [0..<n + 2]) = n + 2" by simp
  note bc = boundary_cells[OF l, of u_a u_b]
  have fin: "assign_inner ((map mem [0..<n + 2])[0 := u_a, n + 1 := u_b]) v =
          (if length v = n then Inr (u_a # v @ [u_b])
          else if length v = 1 then Inr (u_a # replicate n (hd v) @ [u_b])
          else Inl ValueError)" for v
  proof -
    have cnt: "length ((map mem [0..<n + 2])[0 := u_a, n + 1 := u_b]) - 2 = n"
      by simp
    show ?thesis
      by (simp only: assign_inner_def Let_def cnt bc append_Cons append_Nil)
  qed
  have fin': "assign_inner ((map mem [0..<n + 2])[0 := u_a, n + 1 := u_b]) =
          (\<lambda>v. if length v = n then Inr (u_a # v @ [u_b])
          else if length v = 1 then Inr (u_a # replicate n (hd v) @ [u_b])
          else Inl ValueError)"
    by (rule ext) (rule fin)
  show ?thesis
    using True unfolding dirichlet_fd_def dirichlet_assemble_errors n_def[symmetric]
    by (simp only: if_True if_False ebind_simps prod.case e length_map length_upt diff_zero i0 i1 Let_def
        length_list_update fin' simp_thms)
qed

lemma mixed_fd_mem: "mixed_fd solve mem1 f a b u_a u_x_b N = mixed_fd solve mem2 f a b u_a u_x_b N"
proof -
  have "empty1 mem1 (N + 2) = Inl ValueError \<and> empty1 mem2 (N + 2) = Inl ValueError
      \<or> (\<exists>U1 U2. empty1 mem1 (N + 2) = Inr U1 \<and> empty1 mem2 (N + 2) = Inr U2)"
    by (simp add: empty1_def)
  then have "ebind (empty1 mem1 (N + 2)) (\<lambda>U. k) = ebind (empty1 mem2 (N + 2)) (\<lambda>U. k)"
    for k :: "py_error + vec"
    by auto
  then show ?thesis by (simp add: mixed_fd_def)
qed

lemma mixed_assemble_invalid:
  assumes "N \<le> 0"
  shows "mixed_assemble f a b u_a u_x_b N =
     Inl (if N = 0 then (if a = b then ZeroDivisionError else IndexError)
          else if N = - 1 then ZeroDivisionError
          else if N = - 2 then IndexError
          else ValueError)"
proof -
  consider "N = 0" | "N = - 1" | "N = - 2" | "N < - 2" using assms by linarith
  then show ?thesis
  proof cases
    case 1
    then show ?thesis
      by (simp add: mixed_assemble_def linspace_def py_div_def zeros2_def ones_def diag_def
          mat_iadd_def mat_set_def py_index_def Let_def numeral_2_eq_2)
  next
    case 2
    then show ?thesis
      by (simp add: mixed_assemble_def linspace_def py_div_def Let_def)
  next
    case 3
    then show ?thesis
      by (simp add: mixed_assemble_def linspace_def py_div_def zeros2_def ones_def diag_def
          mat_iadd_def mat_set_def py_index_def Let_def)
  next
    case 4
    then show ?thesis
      by (simp add: mixed_assemble_def linspace_def)
  qed
qed

lemma shooting_invalid:
  assumes "N \<le> 0"
  shows "shooting api mem a b N u_a u_b s0 ds0 = Inl (if N = 0 then IndexError else ValueError)"
proof (cases "N = 0")
  case True
  have x: "linspace a b 0 = Inr []" by (simp add: linspace_def)
  have ne: "[0..<MAX_ITERATIONS] = 0 # [1..<MAX_ITERATIONS]"
    by (simp add: MAX_ITERATIONS_def upt_conv_Cons)
  show ?thesis
    unfolding True shooting_unfold[OF x] ne
    by (simp add: shoot_iteration_def py_index_def)
next
  case False
  with assms show ?thesis by (simp add: shooting_def linspace_def)
qed

text \<open>With an integrator that never reports failure the loop returns a state.\<close>

lemma shoot_iteration_total:
  assumes "\<forall>s. ode_successful api s" and "fst (u_arr st) \<noteq> []" and "n < length (convergence st)"
  shows "\<exists>r. shoot_iteration api x u_a u_b n st = Inr r"
proof (cases "shoot_iteration api x u_a u_b n st")
  case (Inl e)
  have i: "py_index (length (fst (u_arr st))) 0 = Inr 0"
    using assms(2) by (simp add: py_index_def)
  have k: "py_index (length (convergence st)) (int n) = Inr n"
    using assms(3) by (simp add: py_index_def)
  let ?m = "march api (ode_init api (((fst (u_arr st))[0 := u_a]) ! 0, ((snd (u_arr st))[0 := u_prime_rhs st]) ! 0))
              0 (tl x) ((fst (u_arr st))[0 := u_a], (snd (u_arr st))[0 := u_prime_rhs st])"
  have "\<exists>u. ?m = Inr u"
  proof (cases ?m)
    case (Inl e')
    with march_error[OF Inl] have "?m = Inl integration_failed" by simp
    then show ?thesis
      unfolding march_Inl_iff using assms(1) by (simp add: list_ex_iff)
  next
    case (Inr u)
    then show ?thesis by simp
  qed
  then obtain u where u: "?m = Inr u" by blast
  from march_length[OF u] assms(2) have "py_index (length (fst u)) (- 1) = Inr (length (fst u) - 1)"
    by (simp add: py_index_last)
  with u have "\<exists>r. shoot_iteration api x u_a u_b n st = Inr r"
    by (simp add: shoot_iteration_def i k Let_def)
  then show ?thesis .
next
  case (Inr r)
  then show ?thesis by simp
qed

lemma shoot_loop_total:
  "\<forall>s. ode_successful api s \<Longrightarrow> fst (u_arr st) \<noteq> [] \<Longrightarrow>
   \<forall>n\<in>set ns. n < length (convergence st) \<Longrightarrow> \<exists>st'. shoot_loop api x u_a u_b ns st = Inr st'"
proof (induction ns arbitrary: st)
  case Nil
  then show ?case by simp
next
  case (Cons n ns)
  from shoot_iteration_total[OF Cons.prems(1,2), of n x u_a u_b] Cons.prems(3)
  obtain brk st1 where it: "shoot_iteration api x u_a u_b n st = Inr (brk, st1)"
    by auto
  note f = shoot_iteration_Inr[OF it]
  show ?case
  proof (cases brk)
    case True
    with it show ?thesis by simp
  next
    case False
    have "\<exists>st'. shoot_loop api x u_a u_b ns st1 = Inr st'"
      using Cons.prems f(2,8) by (intro Cons.IH) simp_all
    with it False show ?thesis by simp
  qed
qed

lemma shooting_total:
  assumes "\<forall>s. ode_successful api s" and "1 \<le> N"
  shows "\<exists>st. shooting api mem a b N u_a u_b s0 ds0 = Inr st"
proof -
  from linspace_Inr[of N a b] assms(2) obtain x where x: "linspace a b N = Inr x" by auto
  have N: "0 < nat N" using assms(2) by simp
  show ?thesis
    unfolding shooting_unfold[OF x]
    using N by (intro shoot_loop_total[OF assms(1)]) simp_all
qed

subsection \<open>The cells on small inputs\<close>

lemma dirichlet_assemble_linear_2:
  "dirichlet_assemble (\<lambda>x. 0) 0 1 1 3 2 =
     Inr ([0, 1 / 3, 2 / 3, 1], [[- 18, 9], [9, - 18]], [- 9, - 27])"
  by (simp add: dirichlet_assemble_errors grid_def tridiag_def stencil_def dirichlet_rhs_def
      power2_eq_square numeral_2_eq_2 numeral_3_eq_3)

lemma gauss_solve_2x2: "gauss_solve [[- 18, 9], [9, - 18]] [- 9, - 27] = Inr [5 / 3, 7 / 3]"
  by (simp add: gauss_solve_def pivot_row_def eliminate_def dot_def)

lemmas shoot_eval = shoot_iteration_def stopping_criteria_def py_index_def linear_ode_def
  TOLERANCE_def Let_def






lemma climbing_iteration:
  assumes "k < 100"
  shows "shoot_iteration (linear_ode 1000) [0, 2] 0 1000 k (climbing k) = Inr (False, climbing (Suc k))"
proof -
  have c: "(map (\<lambda>i. if i < k then 998 - real i else 0) [0..<100])[k := 998 - real k]
         = map (\<lambda>i. if i < Suc k then 998 - real i else 0) [0..<100]"
    using assms by (intro nth_equalityI) (auto simp: nth_list_update less_Suc_eq)
  have r: "\<bar>2 + real k - 1000\<bar> = 998 - real k" using assms by simp
  show ?thesis
    using assms
    by (simp add: shoot_eval climbing_def c r add_divide_distrib del: upt_Suc)
qed

lemma climbing_loop:
  "k \<le> 100 \<Longrightarrow> shoot_loop (linear_ode 1000) [0, 2] 0 1000 [k..<100] (climbing k) = Inr (climbing 100)"
proof (induction k rule: inc_induct)
  case base
  show ?case by simp
next
  case (step k)
  have "[k..<100] = k # [Suc k..<100]" using step.hyps by (simp add: upt_conv_Cons)
  then show ?case
    using step climbing_iteration[of k] by simp
qed

lemma climbing_run:
  "shooting (linear_ode 1000) (\<lambda>i. if i = 1 then 1 else if i = 0 then 0 else 1 / 2) 0 2 2 0 1000 1 (1 / 2)
   = Inr (climbing 100)"
proof -
  have x: "linspace 0 2 2 = Inr [0, 2]"
    by (simp add: linspace_def numeral_2_eq_2)
  have z: "replicate MAX_ITERATIONS (0::real) = map (\<lambda>i. if i < 0 then 998 - real i else 0) [0..<100]"
    by (simp add: MAX_ITERATIONS_def map_replicate_const)
  have u: "(map (\<lambda>i. if i = 1 then 1 else if i = 0 then 0 else 1 / 2) [0..<nat 2],
            map (\<lambda>c. if nat 2 + c = 1 then 1 else if nat 2 + c = 0 then 0 else 1 / 2) [0..<nat 2])
         = ([0, 1 :: real], [1 / 2, 1 / 2 :: real])"
    by (simp add: numeral_2_eq_2)
  have "climbing 0 = \<lparr>u_prime_rhs = 1, du_prime = 1 / 2, success = False,
         u_arr = ([0, 1], [1 / 2, 1 / 2]),
         convergence = map (\<lambda>i. if i < 0 then 998 - real i else 0) [0..<100], n_last = None\<rparr>"
    by (simp add: climbing_def del: upt_Suc)
  then show ?thesis
    unfolding shooting_unfold[OF x] z u
    using climbing_loop[of 0]
    by (simp add: MAX_ITERATIONS_def del: upt_Suc)
qed

lemma linspace_eval3: "linspace 0 2 3 = Inr [0, 1, 2]"
  by (simp add: linspace_def numeral_3_eq_3)

lemma linspace_eval2: "linspace 0 2 2 = Inr [0, 2]"
  by (simp add: linspace_def numeral_2_eq_2)

lemma failing_prefix:
  "shoot_loop (linear_ode (5 / 2)) [0, 1, 2] 0 3 [0..<1]
     \<lparr>u_prime_rhs = 1, du_prime = 1 / 2, success = False,
      u_arr = (map (\<lambda>i. 0) [0..<nat 3], map (\<lambda>c. 0) [0..<nat 3]),
      convergence = replicate MAX_ITERATIONS 0, n_last = None\<rparr>
   = Inr \<lparr>u_prime_rhs = 3 / 2, du_prime = 1 / 2, success = False,
      u_arr = ([0, 1, 2], [1, 1, 1]),
      convergence = (replicate MAX_ITERATIONS 0)[0 := 1], n_last = Some 0\<rparr>"
  by (simp add: shoot_eval numeral_3_eq_3 MAX_ITERATIONS_def)

lemma failing_step:
  "list_ex (\<lambda>s. \<not> ode_successful (linear_ode (5 / 2)) s)
     (ode_run (linear_ode (5 / 2)) (ode_init (linear_ode (5 / 2)) (0, 3 / 2)) (tl [0, 1, 2]))"
  by (simp add: linear_ode_def)

subsection \<open>The exponential and its second difference\<close>

lemma exp1_le3: "exp (1::real) \<le> 3"
  using exp_le by simp

lemma cosh_expansion:
  fixes h :: real
  assumes "0 < h" "h \<le> 1"
  shows "\<exists>R. exp h + exp (- h) - 2 = h\<^sup>2 + h ^ 4 / 12 + R \<and> 0 \<le> R \<and> R \<le> h ^ 6 / 120"
proof -
  obtain t1 where t1: "\<bar>t1\<bar> \<le> \<bar>h\<bar>"
    "exp h = (\<Sum>m<6. (h ^ m) / fact m) + (exp t1 / fact 6) * h ^ 6"
    using Maclaurin_exp_le[of h 6] by blast
  obtain t2 where t2: "\<bar>t2\<bar> \<le> \<bar>- h\<bar>"
    "exp (- h) = (\<Sum>m<6. ((- h) ^ m) / fact m) + (exp t2 / fact 6) * (- h) ^ 6"
    using Maclaurin_exp_le[of "- h" 6] by blast
  have s1: "(\<Sum>m<6. (h ^ m) / fact m) = 1 + h + h\<^sup>2 / 2 + h ^ 3 / 6 + h ^ 4 / 24 + h ^ 5 / 120"
    by (simp add: eval_nat_numeral lessThan_Suc)
  have s2: "(\<Sum>m<6. ((- h) ^ m) / fact m) = 1 - h + h\<^sup>2 / 2 - h ^ 3 / 6 + h ^ 4 / 24 - h ^ 5 / 120"
    by (simp add: eval_nat_numeral lessThan_Suc)
  have f6: "fact 6 = (720::real)" by (simp add: eval_nat_numeral)
  have m6: "(- h) ^ 6 = h ^ 6" by simp
  define R where "R = (exp t1 + exp t2) * h ^ 6 / 720"
  have eq: "exp h + exp (- h) - 2 = h\<^sup>2 + h ^ 4 / 12 + R"
    unfolding t1(2) t2(2) s1 s2 f6 m6 R_def by (simp add: field_simps)
  have "exp t1 \<le> exp 1" "exp t2 \<le> exp 1"
    using t1(1) t2(1) assms by simp_all
  then have "exp t1 + exp t2 \<le> 6" using exp1_le3 by linarith
  then have "(exp t1 + exp t2) * h ^ 6 \<le> 6 * h ^ 6"
    using assms by (intro mult_right_mono) simp_all
  then have "R \<le> h ^ 6 / 120" by (simp add: R_def)
  moreover have "0 \<le> R" using assms by (simp add: R_def add_nonneg_nonneg)
  ultimately show ?thesis using eq by blast
qed

lemma poly_factor:
  fixes s :: real
  shows "s + s\<^sup>2 / 12 + s ^ 3 / 120 = s * (1 + s / 12 + s\<^sup>2 / 120)"
    and "s\<^sup>2 / 12 + s ^ 3 / 120 = s * ((1 / 12 + s / 120) * s)"
    and "s\<^sup>2 / 12 = s * ((1 / 12) * s)"
  by (simp_all add: power2_eq_square power3_eq_cube algebra_simps)

lemma cfac_bounds:
  assumes "0 < h" "h \<le> 1"
  shows "0 < exp h + exp (- h) - 2"
    and "0 < 1 - cfac h"
    and "(1 / 12) * h\<^sup>2 / (1 + h\<^sup>2 / 12 + h ^ 4 / 120) \<le> 1 - cfac h"
    and "1 - cfac h \<le> (1 / 12 + h\<^sup>2 / 120) * h\<^sup>2"
proof -
  obtain R where R: "exp h + exp (- h) - 2 = h\<^sup>2 + h ^ 4 / 12 + R" "0 \<le> R" "R \<le> h ^ 6 / 120"
    using cosh_expansion[OF assms] by blast
  define D where "D = exp h + exp (- h) - 2"
  have h2: "0 < h\<^sup>2" using assms by simp
  have h4: "0 < h ^ 4" using assms by simp
  have p4: "h ^ 4 = (h\<^sup>2)\<^sup>2" and p6: "h ^ 6 = (h\<^sup>2) ^ 3"
    by (simp_all flip: power_mult)
  have DR: "D = h\<^sup>2 + h ^ 4 / 12 + R" using R(1) by (simp add: D_def)
  have Dlo: "h\<^sup>2 \<le> D" unfolding DR using R(2) h4 by simp
  have Dpos: "0 < D" using Dlo h2 by linarith
  have Dhi: "D \<le> h\<^sup>2 + h ^ 4 / 12 + h ^ 6 / 120" unfolding DR using R(3) by simp
  have dh: "D - h\<^sup>2 = h ^ 4 / 12 + R" unfolding DR by simp
  have "1 - cfac h = 1 - h\<^sup>2 / D" by (simp only: cfac_def D_def)
  also have "\<dots> = (D - h\<^sup>2) / D"
    using Dpos by (simp add: diff_divide_distrib)
  also have "\<dots> = (h ^ 4 / 12 + R) / D" by (simp only: dh)
  finally have c: "1 - cfac h = (h ^ 4 / 12 + R) / D" .
  show "0 < exp h + exp (- h) - 2" using Dpos by (simp add: D_def)
  have num: "0 < h ^ 4 / 12 + R" using h4 R(2) by (intro add_pos_nonneg) simp_all
  show "0 < 1 - cfac h" unfolding c using num Dpos by simp
  have "(h ^ 4 / 12) / (h\<^sup>2 + h ^ 4 / 12 + h ^ 6 / 120) \<le> (h ^ 4 / 12 + R) / D"
    using R(2) h4 Dpos Dhi by (intro frac_le) simp_all
  moreover have "(h ^ 4 / 12) / (h\<^sup>2 + h ^ 4 / 12 + h ^ 6 / 120)
               = (1 / 12) * h\<^sup>2 / (1 + h\<^sup>2 / 12 + h ^ 4 / 120)"
  proof -
    have "h\<^sup>2 + h ^ 4 / 12 + h ^ 6 / 120 = h\<^sup>2 * (1 + h\<^sup>2 / 12 + h ^ 4 / 120)"
      unfolding p4 p6 by (rule poly_factor(1))
    moreover have "h ^ 4 / 12 = h\<^sup>2 * ((1 / 12) * h\<^sup>2)"
      unfolding p4 by (rule poly_factor(3))
    ultimately have "(h ^ 4 / 12) / (h\<^sup>2 + h ^ 4 / 12 + h ^ 6 / 120)
        = (h\<^sup>2 * ((1 / 12) * h\<^sup>2)) / (h\<^sup>2 * (1 + h\<^sup>2 / 12 + h ^ 4 / 120))"
      by (simp only:)
    also have "\<dots> = ((1 / 12) * h\<^sup>2) / (1 + h\<^sup>2 / 12 + h ^ 4 / 120)"
      using h2 by (intro mult_divide_mult_cancel_left) simp
    finally show ?thesis by simp
  qed
  ultimately show "(1 / 12) * h\<^sup>2 / (1 + h\<^sup>2 / 12 + h ^ 4 / 120) \<le> 1 - cfac h"
    unfolding c by simp
  have "(h ^ 4 / 12 + R) / D \<le> (h ^ 4 / 12 + h ^ 6 / 120) / h\<^sup>2"
    using R(3) h2 h4 Dlo assms by (intro frac_le) simp_all
  moreover have "(h ^ 4 / 12 + h ^ 6 / 120) / h\<^sup>2 = (1 / 12 + h\<^sup>2 / 120) * h\<^sup>2"
  proof -
    have "h ^ 4 / 12 + h ^ 6 / 120 = h\<^sup>2 * ((1 / 12 + h\<^sup>2 / 120) * h\<^sup>2)"
      unfolding p4 p6 by (rule poly_factor(2))
    then have "(h ^ 4 / 12 + h ^ 6 / 120) / h\<^sup>2
        = (h\<^sup>2 * ((1 / 12 + h\<^sup>2 / 120) * h\<^sup>2)) / h\<^sup>2"
      by (simp only:)
    also have "\<dots> = (1 / 12 + h\<^sup>2 / 120) * h\<^sup>2"
      using h2 by (intro nonzero_mult_div_cancel_left) simp
    finally show ?thesis .
  qed
  ultimately show "1 - cfac h \<le> (1 / 12 + h\<^sup>2 / 120) * h\<^sup>2"
    unfolding c by simp
qed


lemma exp1_ge2: "2 \<le> exp (1::real)"
  using exp_ge_add_one_self[of "1::real"] by simp

lemma exp_xstar: "exp xstar = exp 1 - 1"
  unfolding xstar_def using exp1_ge2 by (intro exp_ln) linarith

lemma xstar_range: "0 \<le> xstar" "xstar \<le> 1"
proof -
  have "exp 0 \<le> exp xstar" using exp_xstar exp1_ge2 by simp
  then show "0 \<le> xstar" by (simp only: exp_le_cancel_iff)
  have "exp xstar \<le> exp 1" using exp_xstar by simp
  then show "xstar \<le> 1" by (simp only: exp_le_cancel_iff)
qed

lemma gdev_min: "gdev xstar \<le> gdev x"
proof -
  have "1 + (x - xstar) \<le> exp (x - xstar)" by (rule exp_ge_add_one_self)
  then have "exp xstar * (1 + (x - xstar)) \<le> exp xstar * exp (x - xstar)"
    by (intro mult_left_mono) simp_all
  also have "\<dots> = exp x" by (simp add: exp_add[symmetric])
  finally have "exp xstar + exp xstar * (x - xstar) \<le> exp x"
    by (simp add: algebra_simps)
  then show ?thesis
    unfolding gdev_def exp_xstar by (simp add: algebra_simps)
qed

lemma gdev_near_min:
  assumes "0 \<le> d" "d \<le> 1"
  shows "gdev (xstar + d) \<le> gdev xstar + 2 * d\<^sup>2"
proof -
  have "exp d \<le> 1 + d + d\<^sup>2" using assms by (rule exp_bound)
  then have "exp xstar * exp d \<le> exp xstar * (1 + d + d\<^sup>2)"
    by (intro mult_left_mono) simp_all
  then have "exp (xstar + d) \<le> (exp 1 - 1) * (1 + d + d\<^sup>2)"
    by (simp add: exp_add exp_xstar)
  then have "gdev (xstar + d) \<le> gdev xstar + (exp 1 - 1) * d\<^sup>2"
    unfolding gdev_def exp_xstar by (simp add: algebra_simps)
  moreover have "(exp 1 - 1) * d\<^sup>2 \<le> 2 * d\<^sup>2"
    using exp1_le3 by (intro mult_right_mono) simp_all
  ultimately show ?thesis by linarith
qed

lemma gdev_nonpos:
  assumes "0 \<le> x" "x \<le> 1"
  shows "gdev x \<le> 0"
proof (cases "x \<le> xstar")
  case True
  have d: "(gdev has_real_derivative (exp y - (exp 1 - 1))) (at y)" for y
    unfolding gdev_def by (auto intro!: derivative_eq_intros)
  have "gdev x \<le> gdev 0"
  proof (rule DERIV_nonpos_imp_nonincreasing[OF assms(1)])
    fix y assume "0 \<le> y" "y \<le> x"
    then have "exp y \<le> exp xstar" using True by simp
    then have "exp y - (exp 1 - 1) \<le> 0" by (simp add: exp_xstar)
    then show "\<exists>z. (gdev has_real_derivative z) (at y) \<and> z \<le> 0" using d by blast
  qed
  then show ?thesis by (simp add: gdev_def)
next
  case False
  have d: "(gdev has_real_derivative (exp y - (exp 1 - 1))) (at y)" for y
    unfolding gdev_def by (auto intro!: derivative_eq_intros)
  have "gdev x \<le> gdev 1"
  proof (rule DERIV_nonneg_imp_nondecreasing[OF assms(2)])
    fix y assume "x \<le> y" "y \<le> 1"
    then have "exp xstar \<le> exp y" using False by simp
    then have "0 \<le> exp y - (exp 1 - 1)" by (simp add: exp_xstar)
    then show "\<exists>z. (gdev has_real_derivative z) (at y) \<and> 0 \<le> z" using d by blast
  qed
  then show ?thesis by (simp add: gdev_def)
qed

lemma gdev_xstar_neg: "gdev xstar < 0"
proof -
  have "gdev xstar \<le> gdev (1 / 2)" by (rule gdev_min)
  also have "gdev (1 / 2) = - ((exp (1 / 2) - 1)\<^sup>2 / 2)"
  proof -
    define E :: real where "E = exp (1 / 2)"
    have "exp (1::real) = exp (1 / 2 + 1 / 2)" by simp
    also have "\<dots> = E * E" unfolding E_def by (rule exp_add)
    finally have e: "exp (1::real) = E * E" .
    have "E - 1 - (E * E - 1) * (1 / 2) = - ((E - 1)\<^sup>2 / 2)"
      by (simp add: power2_eq_square field_simps)
    then show ?thesis
      unfolding gdev_def e E_def[symmetric] .
  qed
  also have "\<dots> < 0"
  proof -
    have "1 < exp (1 / 2 :: real)" by simp
    then have "0 < (exp (1 / 2 :: real) - 1)\<^sup>2" by simp
    then show ?thesis by simp
  qed
  finally show ?thesis .
qed

subsection \<open>The discrete solution of the exponential example\<close>

lemma grid_unit: "grid 0 1 n i = real i / real (n + 1)"
  by (simp add: grid_def)

text \<open>The discrete solution of the exponential problem in closed form.\<close>

lemma fd_exp_output:
  assumes n: "1 \<le> n"
    and ex: "exact_solve_on solve (tridiag n (1 / ((1 - 0) / real (n + 1))\<^sup>2))
               (map (dirichlet_rhs exp 0 1 0 3 n) [0..<n])"
  shows "dirichlet_fd solve mem exp 0 1 0 3 (int n) =
         Inr (map (\<lambda>i. u_true (grid 0 1 n i) - (1 - cfac (1 / real (n + 1))) * gdev (grid 0 1 n i))
                [0..<n + 2])"
proof -
  define h where "h = 1 / real (n + 1)"
  have h: "0 < h" "h \<le> 1" by (simp_all add: h_def)
  define c where "c = cfac h"
  define D where "D = exp h + exp (- h) - 2"
  have D: "0 < D" unfolding D_def by (rule cfac_bounds(1)[OF h])
  have cD: "c * D = h\<^sup>2" using D by (simp add: c_def cfac_def D_def)
  define L where "L i = u_true (grid 0 1 n i) - (1 - c) * gdev (grid 0 1 n i)" for i
  have gx: "grid 0 1 n i = real i * h" for i by (simp add: grid_def h_def)
  have Lc: "L i = c * exp (real i * h) + (3 + c - c * exp 1) * (real i * h) - c" for i
    unfolding L_def gx u_true_def gdev_def by (simp add: algebra_simps)
  have N: "(1::int) \<le> int n" using n by simp
  have nn: "nat (int n) = n" by simp
  have "dirichlet_fd solve mem exp 0 1 0 3 (int n) = Inr (map L [0..<nat (int n) + 2])"
  proof (rule dirichlet_fd_solution[OF N])
    show "(0::real) \<noteq> 1" by simp
    show "exact_solve_on solve (tridiag (nat (int n)) (1 / ((1 - 0) / real (nat (int n) + 1))\<^sup>2))
            (map (dirichlet_rhs exp 0 1 0 3 (nat (int n))) [0..<nat (int n)])"
      unfolding nn by (rule ex)
    show "L 0 = 0" by (simp add: Lc)
    have "real (n + 1) * h = 1" by (simp add: h_def)
    then show "L (nat (int n) + 1) = 3" unfolding nn Lc by (simp add: algebra_simps)
    fix i assume "i < nat (int n)"
    have e0: "exp (real i * h) = exp (real (i + 1) * h) * exp (- h)"
      by (simp add: exp_add[symmetric] algebra_simps)
    have e2: "exp (real (i + 2) * h) = exp (real (i + 1) * h) * exp h"
      by (simp add: exp_add[symmetric] algebra_simps)
    have "L i - 2 * L (i + 1) + L (i + 2)
        = c * (exp (real i * h) - 2 * exp (real (i + 1) * h) + exp (real (i + 2) * h))"
      unfolding Lc by (simp add: algebra_simps)
    also have "\<dots> = c * D * exp (real (i + 1) * h)"
      unfolding e0 e2 D_def by (simp add: algebra_simps)
    also have "\<dots> = h\<^sup>2 * exp (grid 0 1 n (i + 1))"
      unfolding cD gx ..
    finally have "(L i - 2 * L (i + 1) + L (i + 2)) / h\<^sup>2 = exp (grid 0 1 n (i + 1))"
      using h by simp
    then show "(L i - 2 * L (i + 1) + L (i + 2)) / ((1 - 0) / real (nat (int n) + 1))\<^sup>2
             = exp (grid 0 1 (nat (int n)) (i + 1))"
      unfolding nn h_def by simp
  qed
  then show ?thesis unfolding nn L_def c_def h_def .
qed

lemma fd_exp_error_eq:
  assumes n: "1 \<le> n"
    and ex: "exact_solve_on solve (tridiag n (1 / ((1 - 0) / real (n + 1))\<^sup>2))
               (map (dirichlet_rhs exp 0 1 0 3 n) [0..<n])"
  shows "fd_exp_error solve mem n =
         Max ((\<lambda>i. (1 - cfac (1 / real (n + 1))) * \<bar>gdev (grid 0 1 n i)\<bar>) ` {..n + 1})"
proof -
  define h where "h = 1 / real (n + 1)"
  have h: "0 < h" "h \<le> 1" by (simp_all add: h_def)
  have c: "0 < 1 - cfac h" by (rule cfac_bounds(2)[OF h])
  let ?U = "map (\<lambda>i. u_true (grid 0 1 n i) - (1 - cfac h) * gdev (grid 0 1 n i)) [0..<n + 2]"
  have out: "dirichlet_fd solve mem exp 0 1 0 3 (int n) = Inr ?U"
    unfolding h_def by (rule fd_exp_output[OF n ex])
  have "\<bar>?U ! i - u_true (grid 0 1 n i)\<bar> = (1 - cfac h) * \<bar>gdev (grid 0 1 n i)\<bar>"
    if "i \<in> {..n + 1}" for i
  proof -
    have "i < n + 2" using that by simp
    then have "?U ! i = u_true (grid 0 1 n i) - (1 - cfac h) * gdev (grid 0 1 n i)"
      by (simp del: upt_Suc)
    then have "\<bar>?U ! i - u_true (grid 0 1 n i)\<bar> = \<bar>(1 - cfac h) * gdev (grid 0 1 n i)\<bar>"
      by simp
    also have "\<dots> = (1 - cfac h) * \<bar>gdev (grid 0 1 n i)\<bar>"
      using c by (simp add: abs_mult)
    finally show ?thesis .
  qed
  then have "(\<lambda>i. \<bar>?U ! i - u_true (grid 0 1 n i)\<bar>) ` {..n + 1}
           = (\<lambda>i. (1 - cfac h) * \<bar>gdev (grid 0 1 n i)\<bar>) ` {..n + 1}"
    by (intro image_cong) simp_all
  then show ?thesis
    unfolding fd_exp_error_def out h_def by simp
qed


lemma gmax_pos: "0 < gmax"
  using gdev_xstar_neg by (simp add: gmax_def)

lemma grid_unit_range: "i \<le> n + 1 \<Longrightarrow> 0 \<le> grid 0 1 n i \<and> grid 0 1 n i \<le> 1"
  by (simp add: grid_unit)

lemma fd_exp_error_bounds:
  assumes n: "1 \<le> n"
    and ex: "exact_solve_on solve (tridiag n (1 / ((1 - 0) / real (n + 1))\<^sup>2))
               (map (dirichlet_rhs exp 0 1 0 3 n) [0..<n])"
  shows "fd_exp_error solve mem n \<le> (1 - cfac (1 / real (n + 1))) * gmax"
    and "(1 - cfac (1 / real (n + 1))) * (gmax - 2 * (1 / real (n + 1))\<^sup>2) \<le> fd_exp_error solve mem n"
proof -
  define h where "h = 1 / real (n + 1)"
  have h: "0 < h" "h \<le> 1" by (simp_all add: h_def)
  have c: "0 < 1 - cfac h" by (rule cfac_bounds(2)[OF h])
  let ?S = "(\<lambda>i. (1 - cfac h) * \<bar>gdev (grid 0 1 n i)\<bar>) ` {..n + 1}"
  have E: "fd_exp_error solve mem n = Max ?S"
    unfolding h_def by (rule fd_exp_error_eq[OF n ex])
  have fin: "finite ?S" "?S \<noteq> {}" by simp_all
  have abs_g: "\<bar>gdev (grid 0 1 n i)\<bar> = - gdev (grid 0 1 n i)" if "i \<le> n + 1" for i
    using gdev_nonpos[of "grid 0 1 n i"] grid_unit_range[OF that] by simp
  have "Max ?S \<le> (1 - cfac h) * gmax"
  proof (subst Max_le_iff[OF fin], rule ballI)
    fix a assume "a \<in> ?S"
    then obtain i where i: "i \<le> n + 1" and a: "a = (1 - cfac h) * \<bar>gdev (grid 0 1 n i)\<bar>"
      by auto
    have "\<bar>gdev (grid 0 1 n i)\<bar> \<le> gmax"
      unfolding abs_g[OF i] gmax_def using gdev_min[of "grid 0 1 n i"] by simp
    then show "a \<le> (1 - cfac h) * gmax"
      unfolding a using c by (intro mult_left_mono) simp_all
  qed
  then show "fd_exp_error solve mem n \<le> (1 - cfac (1 / real (n + 1))) * gmax"
    unfolding E h_def .
  define i where "i = nat \<lceil>xstar * real (n + 1)\<rceil>"
  have x0: "0 \<le> xstar * real (n + 1)" using xstar_range(1) by simp
  have x1: "xstar * real (n + 1) \<le> real (n + 1)"
    using xstar_range(2) by (simp add: mult_left_le_one_le)
  have ri: "real i = of_int \<lceil>xstar * real (n + 1)\<rceil>"
    using x0 by (simp add: i_def)
  have i_le: "i \<le> n + 1"
  proof -
    have "xstar * real (n + 1) \<le> of_int (int (n + 1))"
      using x1 by simp
    then have "\<lceil>xstar * real (n + 1)\<rceil> \<le> int (n + 1)"
      by (rule ceiling_le)
    then show ?thesis unfolding i_def nat_le_iff .
  qed
  define d where "d = grid 0 1 n i - xstar"
  have d0: "0 \<le> d"
  proof -
    have "xstar * real (n + 1) \<le> real i" unfolding ri by (rule le_of_int_ceiling)
    then have "xstar \<le> real i / real (n + 1)" by (simp add: pos_le_divide_eq)
    then show ?thesis by (simp add: d_def grid_unit)
  qed
  have dh: "d \<le> h"
  proof -
    have "real i < xstar * real (n + 1) + 1" unfolding ri by linarith
    then have "real i / real (n + 1) < (xstar * real (n + 1) + 1) / real (n + 1)"
      by (intro divide_strict_right_mono) simp_all
    also have "\<dots> = xstar + h" by (simp add: h_def field_simps)
    finally show ?thesis by (simp add: d_def grid_unit)
  qed
  have gi: "grid 0 1 n i = xstar + d" by (simp add: d_def)
  have "gdev (xstar + d) \<le> gdev xstar + 2 * d\<^sup>2"
    using d0 dh h by (intro gdev_near_min) simp_all
  moreover have "d\<^sup>2 \<le> h\<^sup>2" using d0 dh by (intro power_mono) simp_all
  ultimately have "gmax - 2 * h\<^sup>2 \<le> \<bar>gdev (grid 0 1 n i)\<bar>"
    unfolding abs_g[OF i_le] gi gmax_def by linarith
  then have "(1 - cfac h) * (gmax - 2 * h\<^sup>2) \<le> (1 - cfac h) * \<bar>gdev (grid 0 1 n i)\<bar>"
    using c by (intro mult_left_mono) simp_all
  also have "\<dots> \<le> Max ?S"
  proof (rule Max_ge[OF fin(1)])
    have "i \<in> {..n + 1}" using i_le by simp
    then show "(1 - cfac h) * \<bar>gdev (grid 0 1 n i)\<bar> \<in> ?S" by (rule imageI)
  qed
  finally show "(1 - cfac (1 / real (n + 1))) * (gmax - 2 * (1 / real (n + 1))\<^sup>2) \<le> fd_exp_error solve mem n"
    unfolding E h_def .
qed

subsection \<open>The error in the limit of fine grids\<close>

lemma inverse_Suc_tendsto: "(\<lambda>n. 1 / real (n + 1)) \<longlonglongrightarrow> 0"
  using LIMSEQ_inverse_real_of_nat by (simp add: inverse_eq_divide add.commute)

text \<open>The normalised factor \<open>(1 - c(h)) / h\<^sup>2\<close> tends to \<open>1/12\<close>.\<close>

lemma cfac_limit:
  "(\<lambda>n. (1 - cfac (1 / real (n + 1))) / (1 / real (n + 1))\<^sup>2) \<longlonglongrightarrow> 1 / 12"
proof (rule real_tendsto_sandwich)
  let ?h = "\<lambda>n::nat. 1 / real (n + 1)"
  let ?lo = "\<lambda>n. (1 / 12) / (1 + (?h n)\<^sup>2 / 12 + (?h n) ^ 4 / 120)"
  let ?hi = "\<lambda>n. 1 / 12 + (?h n)\<^sup>2 / 120"
  have b: "?lo n \<le> (1 - cfac (?h n)) / (?h n)\<^sup>2 \<and> (1 - cfac (?h n)) / (?h n)\<^sup>2 \<le> ?hi n" for n
  proof -
    have h: "0 < ?h n" "?h n \<le> 1" by simp_all
    have h2: "0 < (?h n)\<^sup>2" using h(1) by simp
    note cb = cfac_bounds[OF h]
    have "?lo n = ((1 / 12) * (?h n)\<^sup>2 / (1 + (?h n)\<^sup>2 / 12 + (?h n) ^ 4 / 120)) / (?h n)\<^sup>2"
      using h2 by simp
    also have "\<dots> \<le> (1 - cfac (?h n)) / (?h n)\<^sup>2"
      using cb(3) h2 by (intro divide_right_mono) simp_all
    finally have 1: "?lo n \<le> (1 - cfac (?h n)) / (?h n)\<^sup>2" .
    have "(1 - cfac (?h n)) / (?h n)\<^sup>2 \<le> ((1 / 12 + (?h n)\<^sup>2 / 120) * (?h n)\<^sup>2) / (?h n)\<^sup>2"
      using cb(4) h2 by (intro divide_right_mono) simp_all
    also have "\<dots> = ?hi n" using h2 by simp
    finally show ?thesis using 1 by simp
  qed
  show "eventually (\<lambda>n. ?lo n \<le> (1 - cfac (?h n)) / (?h n)\<^sup>2) sequentially"
    using b by simp
  show "eventually (\<lambda>n. (1 - cfac (?h n)) / (?h n)\<^sup>2 \<le> ?hi n) sequentially"
    using b by simp
  have "?lo \<longlonglongrightarrow> (1 / 12) / (1 + 0\<^sup>2 / 12 + 0 ^ 4 / 120)"
    by (intro tendsto_intros inverse_Suc_tendsto) simp_all
  then show "?lo \<longlonglongrightarrow> 1 / 12" by simp
  have "?hi \<longlonglongrightarrow> 1 / 12 + 0\<^sup>2 / 120"
    by (intro tendsto_intros inverse_Suc_tendsto) simp_all
  then show "?hi \<longlonglongrightarrow> 1 / 12" by simp
qed

text \<open>
  An error sequence squeezed between \<open>(1 - c(h)) (G - 2 h\<^sup>2)\<close> and \<open>(1 - c(h)) G\<close>
  behaves like \<open>G h\<^sup>2 / 12\<close>.
\<close>

lemma second_order_limits:
  fixes E :: "nat \<Rightarrow> real" and G :: real
  assumes G: "0 < G"
    and up: "\<And>n. 1 \<le> n \<Longrightarrow> E n \<le> (1 - cfac (1 / real (n + 1))) * G"
    and lo: "\<And>n. 1 \<le> n \<Longrightarrow> (1 - cfac (1 / real (n + 1))) * (G - 2 * (1 / real (n + 1))\<^sup>2) \<le> E n"
  shows "(\<lambda>n. E n / (1 / real (n + 1))\<^sup>2) \<longlonglongrightarrow> G / 12"
    and "\<forall>n\<ge>1. E n \<le> (11 / 120 * G) * (1 / real (n + 1))\<^sup>2"
    and "(\<lambda>n. E n / E (2 * n + 1)) \<longlonglongrightarrow> 4"
proof -
  let ?h = "\<lambda>n::nat. 1 / real (n + 1)"
  let ?r = "\<lambda>n. (1 - cfac (?h n)) / (?h n)\<^sup>2"
  let ?e = "\<lambda>n. E n / (?h n)\<^sup>2"
  have h2: "0 < (?h n)\<^sup>2" for n by simp
  have r: "?r \<longlonglongrightarrow> 1 / 12" by (rule cfac_limit)
  have e_up: "?e n \<le> ?r n * G" if "1 \<le> n" for n
  proof -
    have "E n / (?h n)\<^sup>2 \<le> ((1 - cfac (?h n)) * G) / (?h n)\<^sup>2"
      using up[OF that] h2[of n] by (intro divide_right_mono) simp_all
    then show ?thesis by simp
  qed
  have e_lo: "?r n * (G - 2 * (?h n)\<^sup>2) \<le> ?e n" if "1 \<le> n" for n
  proof -
    have "((1 - cfac (?h n)) * (G - 2 * (?h n)\<^sup>2)) / (?h n)\<^sup>2 \<le> E n / (?h n)\<^sup>2"
      using lo[OF that] h2[of n] by (intro divide_right_mono) simp_all
    then show ?thesis by simp
  qed
  show e: "?e \<longlonglongrightarrow> G / 12"
  proof (rule real_tendsto_sandwich)
    show "eventually (\<lambda>n. ?r n * (G - 2 * (?h n)\<^sup>2) \<le> ?e n) sequentially"
      using e_lo by (intro eventually_sequentiallyI[of 1])
    show "eventually (\<lambda>n. ?e n \<le> ?r n * G) sequentially"
      using e_up by (intro eventually_sequentiallyI[of 1])
    have "(\<lambda>n. ?r n * (G - 2 * (?h n)\<^sup>2)) \<longlonglongrightarrow> 1 / 12 * (G - 2 * 0\<^sup>2)"
      by (intro tendsto_intros r inverse_Suc_tendsto)
    then show "(\<lambda>n. ?r n * (G - 2 * (?h n)\<^sup>2)) \<longlonglongrightarrow> G / 12" by simp
    have "(\<lambda>n. ?r n * G) \<longlonglongrightarrow> 1 / 12 * G"
      by (intro tendsto_intros r)
    then show "(\<lambda>n. ?r n * G) \<longlonglongrightarrow> G / 12" by simp
  qed
  show "\<forall>n\<ge>1. E n \<le> (11 / 120 * G) * (?h n)\<^sup>2"
  proof (intro allI impI)
    fix n :: nat assume n: "1 \<le> n"
    have h: "0 < ?h n" "?h n \<le> 1" by simp_all
    have "(?h n)\<^sup>2 \<le> 1" using h by (simp add: power_le_one)
    then have "1 / 12 + (?h n)\<^sup>2 / 120 \<le> 11 / 120" by simp
    then have "(1 / 12 + (?h n)\<^sup>2 / 120) * (?h n)\<^sup>2 \<le> 11 / 120 * (?h n)\<^sup>2"
      by (intro mult_right_mono) simp_all
    with cfac_bounds(4)[OF h] have "1 - cfac (?h n) \<le> 11 / 120 * (?h n)\<^sup>2" by linarith
    then have "(1 - cfac (?h n)) * G \<le> (11 / 120 * (?h n)\<^sup>2) * G"
      using G by (intro mult_right_mono) simp_all
    also have "\<dots> = (11 / 120 * G) * (?h n)\<^sup>2" by (simp only: mult_ac)
    finally show "E n \<le> (11 / 120 * G) * (?h n)\<^sup>2" using up[OF n] by linarith
  qed
  have sm: "strict_mono (\<lambda>n::nat. 2 * n + 1)" by (simp add: strict_mono_def)
  have e2: "(\<lambda>n. ?e (2 * n + 1)) \<longlonglongrightarrow> G / 12"
    using LIMSEQ_subseq_LIMSEQ[OF e sm] by (simp add: comp_def)
  have "(\<lambda>n. 4 * (?e n / ?e (2 * n + 1))) \<longlonglongrightarrow> 4 * ((G / 12) / (G / 12))"
    using G by (intro tendsto_intros e e2) simp
  then have lim: "(\<lambda>n. 4 * (?e n / ?e (2 * n + 1))) \<longlonglongrightarrow> 4" using G by simp
  have "E n / E (2 * n + 1) = 4 * (?e n / ?e (2 * n + 1))" for n
  proof -
    define H where "H = (?h n)\<^sup>2"
    have H: "H \<noteq> 0" unfolding H_def by simp
    have "real (2 * n + 1 + 1) = 2 * real (n + 1)" by simp
    then have "(?h (2 * n + 1))\<^sup>2 = (1 / (2 * real (n + 1)))\<^sup>2" by (simp only:)
    also have "\<dots> = H / 4" unfolding H_def by (simp only: power_divide power_mult_distrib) simp
    finally have hh: "(?h (2 * n + 1))\<^sup>2 = H / 4" .
    have g: "(a / H) / (b / (H / 4)) = (a / b) / 4" for a b :: real
      using H by (cases "b = 0") simp_all
    have "?e n / ?e (2 * n + 1) = (E n / H) / (E (2 * n + 1) / (H / 4))"
      unfolding hh H_def[symmetric] ..
    then show ?thesis by (simp only: g) simp
  qed
  then show "(\<lambda>n. E n / E (2 * n + 1)) \<longlonglongrightarrow> 4" using lim by simp
qed

subsection \<open>The elimination solver is exact\<close>

lemma pivot_fold:
  fixes rs :: "vec list"
  shows "fold (\<lambda>r best. if \<bar>hd best\<bar> < \<bar>hd r\<bar> then r else best) rs b \<in> set (b # rs) \<and>
   (\<forall>r\<in>set (b # rs). \<bar>hd r\<bar> \<le> \<bar>hd (fold (\<lambda>r best. if \<bar>hd best\<bar> < \<bar>hd r\<bar> then r else best) rs b)\<bar>)"
proof (induction rs arbitrary: b)
  case Nil
  then show ?case by simp
next
  case (Cons a rs)
  show ?case
  proof (cases "\<bar>hd b\<bar> < \<bar>hd a\<bar>")
    case True
    with Cons.IH[of a] show ?thesis by (auto intro: order_trans less_imp_le)
  next
    case False
    with Cons.IH[of b] show ?thesis by (auto intro: order_trans)
  qed
qed

lemma pivot_row_mem: "rows \<noteq> [] \<Longrightarrow> pivot_row rows \<in> set rows"
  using pivot_fold[of "tl rows" "hd rows"] by (cases rows) (simp_all add: pivot_row_def)

lemma pivot_row_max: "r \<in> set rows \<Longrightarrow> \<bar>hd r\<bar> \<le> \<bar>hd (pivot_row rows)\<bar>"
  using pivot_fold[of "tl rows" "hd rows"] by (cases rows) (auto simp: pivot_row_def)

lemma dot_Cons: "dot (a # r) (x # v) = a * x + dot r v"
  by (simp add: dot_def)

lemma dot_map2_diff:
  "length r = length p \<Longrightarrow>
   dot (map2 (\<lambda>rj pj. rj - m * pj) r p) xs = dot r xs - m * dot p xs"
proof (induction r arbitrary: p xs)
  case Nil
  then show ?case by (simp add: dot_def)
next
  case (Cons a r)
  then obtain b p' where p: "p = b # p'" by (cases p) auto
  show ?case
  proof (cases xs)
    case Nil
    then show ?thesis by (simp add: dot_def)
  next
    case (Cons x xs')
    then show ?thesis using Cons.IH[of p' xs'] Cons.prems p
      by (simp add: dot_Cons algebra_simps)
  qed
qed

text \<open>A row of length at least two, split into head, coefficients and right-hand side.\<close>

lemma row_split:
  assumes "length r = Suc (Suc n)"
  shows "r = hd r # butlast (tl r) @ [last r]" "length (butlast (tl r)) = n"
    "butlast r = hd r # butlast (tl r)"
proof -
  from assms obtain a r' where r: "r = a # r'" "length r' = Suc n" by (cases r) auto
  then have ne: "r' \<noteq> []" by auto
  show "r = hd r # butlast (tl r) @ [last r]" using r ne by simp
  show "length (butlast (tl r)) = n" using r by simp
  show "butlast r = hd r # butlast (tl r)" using r ne by simp
qed

lemma eliminate_row:
  assumes r: "length r = Suc (Suc n)" and p: "length p = Suc (Suc n)"
  shows "length (eliminate p r) = Suc n"
    and "butlast (eliminate p r) = map2 (\<lambda>rj pj. rj - hd r / hd p * pj) (butlast (tl r)) (butlast (tl p))"
    and "last (eliminate p r) = last r - hd r / hd p * last p"
proof -
  note rs = row_split[OF r] and ps = row_split[OF p]
  define m where "m = hd r / hd p"
  define rm where "rm = butlast (tl r)"
  define pm where "pm = butlast (tl p)"
  have len: "length rm = length pm" using rs(2) ps(2) by (simp add: rm_def pm_def)
  have e: "eliminate p r = map2 (\<lambda>rj pj. rj - m * pj) rm pm @ [last r - m * last p]"
  proof -
    have "eliminate p r = tl (map2 (\<lambda>rj pj. rj - m * pj) (hd r # rm @ [last r]) (hd p # pm @ [last p]))"
      unfolding eliminate_def m_def rm_def pm_def using rs(1) ps(1) by simp
    also have "\<dots> = map2 (\<lambda>rj pj. rj - m * pj) rm pm @ [last r - m * last p]"
      using len by simp
    finally show ?thesis .
  qed
  show "length (eliminate p r) = Suc n" using e len rs(2) by (simp add: rm_def)
  show "butlast (eliminate p r) = map2 (\<lambda>rj pj. rj - hd r / hd p * pj) (butlast (tl r)) (butlast (tl p))"
    using e by (simp add: m_def rm_def pm_def)
  show "last (eliminate p r) = last r - hd r / hd p * last p"
    using e by (simp add: m_def)
qed

text \<open>One elimination step keeps the solutions: a vector \<open>xs\<close> that satisfies the
  eliminated row extends to one that satisfies the row, given it satisfies the pivot row.\<close>

lemma eliminate_back:
  assumes r: "length r = Suc (Suc n)" and p: "length p = Suc (Suc n)" and hp: "hd p \<noteq> 0"
    and pe: "hd p * x0 + dot (butlast (tl p)) xs = last p"
    and re: "dot (butlast (eliminate p r)) xs = last (eliminate p r)"
  shows "dot (butlast r) (x0 # xs) = last r"
proof -
  note rs = row_split[OF r] and ps = row_split[OF p]
  have len: "length (butlast (tl r)) = length (butlast (tl p))" by (simp only: rs(2) ps(2))
  have "dot (butlast (tl r)) xs - hd r / hd p * dot (butlast (tl p)) xs = last r - hd r / hd p * last p"
    using re by (simp only: eliminate_row[OF r p] dot_map2_diff[OF len])
  then have "dot (butlast (tl r)) xs = last r - hd r / hd p * (last p - dot (butlast (tl p)) xs)"
    by (simp only: right_diff_distrib)
  moreover have "last p - dot (butlast (tl p)) xs = hd p * x0" using pe by linarith
  ultimately have "dot (butlast (tl r)) xs = last r - hd r / hd p * (hd p * x0)" by (simp only:)
  then have "hd r * x0 + dot (butlast (tl r)) xs = last r" using hp by simp
  then show ?thesis by (subst rs(3)) (simp add: dot_Cons)
qed

lemma solve_aug_sound:
  "solve_aug n rows = Some xs \<Longrightarrow> \<forall>r\<in>set rows. length r = Suc n \<Longrightarrow> length rows = n \<Longrightarrow>
   length xs = n \<and> (\<forall>r\<in>set rows. dot (butlast r) xs = last r)"
proof (induction n arbitrary: rows xs)
  case 0
  then show ?case by simp
next
  case (Suc n)
  define p where "p = pivot_row rows"
  have ne: "rows \<noteq> []" using Suc.prems(3) by auto
  have pm: "p \<in> set rows" unfolding p_def by (rule pivot_row_mem[OF ne])
  have pl: "length p = Suc (Suc n)" using Suc.prems(2) pm by simp
  have hp: "hd p \<noteq> 0" using Suc.prems(1) by (auto simp: p_def Let_def split: if_splits)
  obtain ys where ys: "solve_aug n (map (eliminate p) (remove1 p rows)) = Some ys"
    and xs: "xs = (last p - dot (butlast (tl p)) ys) / hd p # ys"
    using Suc.prems(1) hp by (auto simp: p_def Let_def split: option.splits if_splits)
  define x0 where "x0 = (last p - dot (butlast (tl p)) ys) / hd p"
  have l': "\<forall>r\<in>set (map (eliminate p) (remove1 p rows)). length r = Suc n"
    using Suc.prems(2) pl set_remove1_subset[of p rows] by (auto intro!: eliminate_row(1))
  have n': "length (map (eliminate p) (remove1 p rows)) = n"
    using Suc.prems(3) pm by (simp add: length_remove1)
  from Suc.IH[OF ys l' n']
  have ly: "length ys = n"
    and sol: "\<And>r. r \<in> set (remove1 p rows) \<Longrightarrow> dot (butlast (eliminate p r)) ys = last (eliminate p r)"
    by auto
  have pe: "hd p * x0 + dot (butlast (tl p)) ys = last p"
    using hp by (simp add: x0_def)
  have "dot (butlast r) (x0 # ys) = last r" if r: "r \<in> set rows" for r
  proof (cases "r = p")
    case True
    show ?thesis unfolding True by (subst row_split(3)[OF pl]) (simp add: dot_Cons pe)
  next
    case False
    then have m: "r \<in> set (remove1 p rows)" using r by simp
    have rl: "length r = Suc (Suc n)" using Suc.prems(2) r by simp
    show ?thesis by (rule eliminate_back[OF rl pl hp pe sol[OF m]])
  qed
  then show ?case using ly by (simp add: xs x0_def)
qed

text \<open>A system the elimination gives up on has a non-trivial kernel vector.\<close>

lemma eliminate_back0:
  assumes r: "length r = Suc (Suc n)" and p: "length p = Suc (Suc n)" and hp: "hd p \<noteq> 0"
    and pe: "hd p * x0 + dot (butlast (tl p)) xs = 0"
    and re: "dot (butlast (eliminate p r)) xs = 0"
  shows "dot (butlast r) (x0 # xs) = 0"
proof -
  note rs = row_split[OF r] and ps = row_split[OF p]
  have len: "length (butlast (tl r)) = length (butlast (tl p))" by (simp only: rs(2) ps(2))
  have "dot (butlast (tl r)) xs - hd r / hd p * dot (butlast (tl p)) xs = 0"
    using re by (simp only: eliminate_row[OF r p] dot_map2_diff[OF len])
  moreover have "dot (butlast (tl p)) xs = - (hd p * x0)" using pe by simp
  ultimately have "hd r * x0 + dot (butlast (tl r)) xs = 0" using hp by simp
  then show ?thesis by (subst rs(3)) (simp add: dot_Cons)
qed

lemma solve_aug_complete:
  "solve_aug n rows = None \<Longrightarrow> \<forall>r\<in>set rows. length r = Suc n \<Longrightarrow> length rows = n \<Longrightarrow>
   \<exists>v. length v = n \<and> v \<noteq> replicate n 0 \<and> (\<forall>r\<in>set rows. dot (butlast r) v = 0)"
proof (induction n arbitrary: rows)
  case 0
  then show ?case by simp
next
  case (Suc n)
  define p where "p = pivot_row rows"
  have ne: "rows \<noteq> []" using Suc.prems(3) by auto
  have pm: "p \<in> set rows" unfolding p_def by (rule pivot_row_mem[OF ne])
  have pl: "length p = Suc (Suc n)" using Suc.prems(2) pm by simp
  show ?case
  proof (cases "hd p = 0")
    case True
    have "dot (butlast r) (1 # replicate n 0) = 0" if r: "r \<in> set rows" for r
    proof -
      have "\<bar>hd r\<bar> \<le> \<bar>hd p\<bar>" unfolding p_def by (rule pivot_row_max[OF r])
      then have "hd r = 0" using True by simp
      moreover have rl: "length r = Suc (Suc n)" using Suc.prems(2) r by simp
      ultimately show ?thesis
        by (subst row_split(3)[OF rl]) (simp add: dot_Cons dot_zero)
    qed
    then show ?thesis by (intro exI[of _ "1 # replicate n 0"]) simp
  next
    case hp: False
    have none: "solve_aug n (map (eliminate p) (remove1 p rows)) = None"
      using Suc.prems(1) hp by (auto simp: p_def Let_def split: option.splits if_splits)
    have l': "\<forall>r\<in>set (map (eliminate p) (remove1 p rows)). length r = Suc n"
      using Suc.prems(2) pl set_remove1_subset[of p rows] by (auto intro!: eliminate_row(1))
    have n': "length (map (eliminate p) (remove1 p rows)) = n"
      using Suc.prems(3) pm by (simp add: length_remove1)
    from Suc.IH[OF none l' n'] obtain v where v: "length v = n" "v \<noteq> replicate n 0"
      and sol: "\<And>r. r \<in> set (remove1 p rows) \<Longrightarrow> dot (butlast (eliminate p r)) v = 0"
      by auto
    define x0 where "x0 = - dot (butlast (tl p)) v / hd p"
    have pe: "hd p * x0 + dot (butlast (tl p)) v = 0"
      using hp by (simp add: x0_def)
    have "dot (butlast r) (x0 # v) = 0" if r: "r \<in> set rows" for r
    proof (cases "r = p")
      case True
      show ?thesis unfolding True by (subst row_split(3)[OF pl]) (simp add: dot_Cons pe)
    next
      case False
      then have m: "r \<in> set (remove1 p rows)" using r by simp
      have rl: "length r = Suc (Suc n)" using Suc.prems(2) r by simp
      show ?thesis by (rule eliminate_back0[OF rl pl hp pe sol[OF m]])
    qed
    then show ?thesis using v by (intro exI[of _ "x0 # v"]) simp
  qed
qed

lemma gauss_solve_exact:
  assumes sq: "square (length rhs) A"
  shows "exact_solve_on gauss_solve A rhs"
proof -
  let ?n = "length rhs"
  let ?rows = "map2 (\<lambda>r y. r @ [y]) A rhs"
  have lA: "length A = ?n" using sq by (metis square_def length_map length_replicate)
  have rowlen: "length (A ! i) = ?n" if "i < ?n" for i
    using sq that lA by (metis square_def nth_map nth_replicate)
  have lr: "length ?rows = ?n" using lA by simp
  have row: "?rows ! i = A ! i @ [rhs ! i]" if "i < ?n" for i
    using that lA by simp
  have rl: "\<forall>r\<in>set ?rows. length r = Suc ?n"
  proof
    fix r assume "r \<in> set ?rows"
    then obtain i where i: "i < length ?rows" "r = ?rows ! i" by (metis in_set_conv_nth)
    then have "i < ?n" using lr by simp
    then show "length r = Suc ?n" using i(2) row rowlen by simp
  qed
  have g: "gauss_solve A rhs = (case solve_aug ?n ?rows of None \<Rightarrow> Inl LinAlgError | Some v \<Rightarrow> Inr v)"
    using sq by (simp add: gauss_solve_def square_def)
  show ?thesis
  proof (cases "solve_aug ?n ?rows")
    case None
    from solve_aug_complete[OF None rl lr] obtain v where v: "length v = ?n" "v \<noteq> replicate ?n 0"
      and k: "\<And>r. r \<in> set ?rows \<Longrightarrow> dot (butlast r) v = 0" by auto
    have "mat_vec A v = replicate (length A) 0"
    proof (rule nth_equalityI)
      show "length (mat_vec A v) = length (replicate (length A) 0)" by (simp add: mat_vec_def)
      fix i assume "i < length (mat_vec A v)"
      then have i: "i < ?n" using lA by (simp add: mat_vec_def)
      then have "?rows ! i \<in> set ?rows" using lr by (intro nth_mem) simp
      from k[OF this] show "mat_vec A v ! i = replicate (length A) 0 ! i"
        using i lA by (simp add: mat_vec_def)
    qed
    then have "singular A" using v lA by (auto simp: singular_def)
    then show ?thesis using None g by (simp add: exact_solve_on_def)
  next
    case (Some v)
    from solve_aug_sound[OF Some rl lr] have v: "length v = ?n"
      and k: "\<And>r. r \<in> set ?rows \<Longrightarrow> dot (butlast r) v = last r" by auto
    have "mat_vec A v = rhs"
    proof (rule nth_equalityI)
      show "length (mat_vec A v) = length rhs" using lA by (simp add: mat_vec_def)
      fix i assume "i < length (mat_vec A v)"
      then have i: "i < ?n" using lA by (simp add: mat_vec_def)
      then have "?rows ! i \<in> set ?rows" using lr by (intro nth_mem) simp
      from k[OF this] show "mat_vec A v ! i = rhs ! i"
        using i lA by (simp add: mat_vec_def)
    qed
    then show ?thesis using Some g v by (simp add: exact_solve_on_def)
  qed
qed

lemma fd_exp_assembled:
  "1 \<le> n \<Longrightarrow> dirichlet_assemble exp 0 1 0 3 (int n) =
     Inr (map (grid 0 1 n) [0..<n + 2], tridiag n (1 / ((1 - 0) / real (n + 1))\<^sup>2),
          map (dirichlet_rhs exp 0 1 0 3 n) [0..<n])"
  using dirichlet_assemble_closed[of "int n" 0 1 exp 0 3] by simp

lemma gauss_solve_tridiag: "exact_solve_on gauss_solve (tridiag n c) (map g [0..<n])"
  using square_tridiag[of n c] by (intro gauss_solve_exact) simp

lemma fd_exp_n1:
  "dirichlet_fd gauss_solve mem exp 0 1 0 3 1 = Inr [0, (12 - exp (1 / 2)) / 8, 3]"
  by (simp add: dirichlet_fd_unfold fd_exp_assembled[of 1, simplified] gauss_solve_def
      tridiag_def stencil_def dirichlet_rhs_def grid_def pivot_row_def eliminate_def dot_def
      power2_eq_square diff_divide_distrib)

subsection \<open>The shooting cell read off the sequence of guesses\<close>

lemma unconverged_iff:
  "unconverged api x u_a u_b g k \<longleftrightarrow>
     (\<forall>j<k. \<not> integrator_fails api x u_a (fst (guess api x u_a u_b g j))
           \<and> TOLERANCE \<le> residual api x u_a u_b (fst (guess api x u_a u_b g j)))"
  by (auto simp: unconverged_def list_all_iff)

lemma unconverged_Suc:
  "unconverged api x u_a u_b g (Suc k) \<longleftrightarrow>
     unconverged api x u_a u_b g k
     \<and> \<not> integrator_fails api x u_a (fst (guess api x u_a u_b g k))
     \<and> TOLERANCE \<le> residual api x u_a u_b (fst (guess api x u_a u_b g k))"
  by (auto simp: unconverged_iff less_Suc_eq)

lemma ode_run_Nil: "ode_run api s xs = [] \<longleftrightarrow> xs = []"
  by (cases xs) simp_all

text \<open>A march on which the integrator never reports failure fills the columns.\<close>

lemma march_run:
  assumes "\<not> list_ex (\<lambda>s. \<not> ode_successful api s) (ode_run api s xs)"
    and "length p = Suc i + length xs"
  shows "\<exists>p' q'. march api s i xs (p, q) = Inr (p', q') \<and> length p' = length p \<and> length q' = length q
           \<and> last p' = (if xs = [] then last p else fst (ode_y api (last (ode_run api s xs))))"
  using assms
proof (induction xs arbitrary: s i p q)
  case Nil
  then show ?case by simp
next
  case (Cons x xs)
  let ?s = "ode_integrate api s x"
  let ?p = "p[Suc i := fst (ode_y api ?s)]"
  let ?q = "q[Suc i := snd (ode_y api ?s)]"
  have ok: "ode_successful api ?s" and rest: "\<not> list_ex (\<lambda>s. \<not> ode_successful api s) (ode_run api ?s xs)"
    using Cons.prems(1) by simp_all
  have len: "length ?p = Suc (Suc i) + length xs" using Cons.prems(2) by simp
  from Cons.IH[OF rest len, of ?q] obtain p' q' where
    m: "march api ?s (Suc i) xs (?p, ?q) = Inr (p', q')" "length p' = length ?p" "length q' = length ?q"
      "last p' = (if xs = [] then last ?p else fst (ode_y api (last (ode_run api ?s xs))))"
    by blast
  have pne: "p \<noteq> []" using Cons.prems(2) by auto
  have lastp: "xs = [] \<Longrightarrow> last ?p = fst (ode_y api ?s)"
    using Cons.prems(2) pne by (simp add: last_list_update)
  have "march api s i (x # xs) (p, q) = Inr (p', q')"
    using ok m(1) by (simp add: Let_def)
  moreover have "last p' = fst (ode_y api (last (ode_run api s (x # xs))))"
    using m(4) lastp by (cases "xs = []") (simp_all add: ode_run_Nil)
  ultimately show ?case using m(2,3) by simp
qed

lemma shoot_iteration_run:
  assumes x: "x \<noteq> []" and l: "length (fst (u_arr st)) = length x" "length (snd (u_arr st)) = length x"
    and n: "n < length (convergence st)"
    and ok: "\<not> integrator_fails api x u_a (u_prime_rhs st)"
  shows "\<exists>u. shoot_iteration api x u_a u_b n st =
               Inr (stopping_criteria u_b n (computed_ub api x u_a (u_prime_rhs st))
                     (st\<lparr>u_arr := u, n_last := Some n\<rparr>))
             \<and> length (fst u) = length x \<and> length (snd u) = length x"
proof -
  let ?p = "(fst (u_arr st))[0 := u_a]"
  let ?q = "(snd (u_arr st))[0 := u_prime_rhs st]"
  let ?s = "ode_init api (u_a, u_prime_rhs st)"
  have ne: "fst (u_arr st) \<noteq> []" "snd (u_arr st) \<noteq> []" using x l by auto
  have i: "py_index (length (fst (u_arr st))) 0 = Inr 0" using ne by (simp add: py_index_def)
  have h: "?p ! 0 = u_a" "?q ! 0 = u_prime_rhs st" using ne by simp_all
  have lx: "length ?p = Suc 0 + length (tl x)" using l x by simp
  from march_run[OF ok[unfolded integrator_fails_def] lx, of ?q] obtain p' q' where
    m: "march api ?s 0 (tl x) (?p, ?q) = Inr (p', q')" "length p' = length ?p" "length q' = length ?q"
      "last p' = (if tl x = [] then last ?p else fst (ode_y api (last (ode_run api ?s (tl x)))))"
    by blast
  have lp: "length p' = length x" "length q' = length x" using m(2,3) l by simp_all
  have j: "py_index (length p') (- 1) = Inr (length p' - 1)"
    using lp x by (simp add: py_index_def)
  have k: "py_index (length (convergence st)) (int n) = Inr n" using n by (simp add: py_index_def)
  have "tl x = [] \<Longrightarrow> last ?p = u_a"
    using lx ne by (simp add: last_list_update)
  moreover have "p' \<noteq> []" using lp x by auto
  then have "p' ! (length p' - 1) = last p'" by (simp add: last_conv_nth)
  ultimately have ub: "p' ! (length p' - Suc 0) = computed_ub api x u_a (u_prime_rhs st)"
    using m(4) by (simp add: computed_ub_def)
  have "shoot_iteration api x u_a u_b n st =
          Inr (stopping_criteria u_b n (computed_ub api x u_a (u_prime_rhs st))
                (st\<lparr>u_arr := (p', q'), n_last := Some n\<rparr>))"
    by (simp add: shoot_iteration_def i Let_def h m(1) j k ub)
  then show ?thesis using lp by (intro exI[of _ "(p', q')"]) simp
qed

text \<open>The state after \<open>k\<close> iterations none of which met the stopping criterion.\<close>

lemma shoot_loop_unconverged:
  assumes x: "x \<noteq> []" and l: "length (fst (u_arr st0)) = length x" "length (snd (u_arr st0)) = length x"
    and ns: "\<not> success st0"
  shows "k \<le> length (convergence st0) \<Longrightarrow>
         unconverged api x u_a u_b (u_prime_rhs st0, du_prime st0) k \<Longrightarrow>
         \<exists>st. shoot_loop api x u_a u_b [0..<k] st0 = Inr st \<and> \<not> success st
            \<and> (u_prime_rhs st, du_prime st) = guess api x u_a u_b (u_prime_rhs st0, du_prime st0) k
            \<and> length (fst (u_arr st)) = length x \<and> length (snd (u_arr st)) = length x
            \<and> convergence st =
                map (\<lambda>j. residual api x u_a u_b (fst (guess api x u_a u_b (u_prime_rhs st0, du_prime st0) j))) [0..<k]
                @ drop k (convergence st0)
            \<and> n_last st = (if k = 0 then n_last st0 else Some (k - 1))"
proof (induction k)
  case 0
  then show ?case using l ns by simp
next
  case (Suc k)
  let ?g = "guess api x u_a u_b (u_prime_rhs st0, du_prime st0)"
  let ?r = "\<lambda>j. residual api x u_a u_b (fst (?g j))"
  have k: "k < length (convergence st0)" using Suc.prems(1) by simp
  have unc: "unconverged api x u_a u_b (u_prime_rhs st0, du_prime st0) k"
    and ok: "\<not> integrator_fails api x u_a (fst (?g k))"
    and tol: "TOLERANCE \<le> ?r k"
    using Suc.prems(2) by (simp_all add: unconverged_Suc)
  from Suc.IH[OF _ unc] k obtain st where
    st: "shoot_loop api x u_a u_b [0..<k] st0 = Inr st" "\<not> success st"
      "(u_prime_rhs st, du_prime st) = ?g k"
      "length (fst (u_arr st)) = length x" "length (snd (u_arr st)) = length x"
      "convergence st = map ?r [0..<k] @ drop k (convergence st0)"
    by auto
  have s: "u_prime_rhs st = fst (?g k)" "du_prime st = snd (?g k)"
    using st(3) by (metis fst_conv, metis snd_conv)
  have kl: "k < length (convergence st)" using st(6) k by simp
  from shoot_iteration_run[OF x st(4,5) kl, of api u_a u_b] ok s(1) obtain u where
    it: "shoot_iteration api x u_a u_b k st =
           Inr (stopping_criteria u_b k (computed_ub api x u_a (u_prime_rhs st)) (st\<lparr>u_arr := u, n_last := Some k\<rparr>))"
      and lu: "length (fst u) = length x" "length (snd u) = length x"
    by auto
  define ub where "ub = computed_ub api x u_a (u_prime_rhs st)"
  have res: "\<bar>ub - u_b\<bar> = ?r k" by (simp add: ub_def residual_def s(1))
  have nt: "\<not> \<bar>ub - u_b\<bar> < TOLERANCE" using tol res by simp
  define st' where "st' = snd (stopping_criteria u_b k ub (st\<lparr>u_arr := u, n_last := Some k\<rparr>))"
  have sc: "stopping_criteria u_b k ub (st\<lparr>u_arr := u, n_last := Some k\<rparr>) = (False, st')"
    unfolding st'_def using nt by (simp add: stopping_criteria_def Let_def)
  have upd: "(map ?r [0..<k] @ drop k (convergence st0))[k := ?r k]
           = map ?r [0..<Suc k] @ drop (Suc k) (convergence st0)"
  proof (rule nth_equalityI)
    show "length ((map ?r [0..<k] @ drop k (convergence st0))[k := ?r k])
        = length (map ?r [0..<Suc k] @ drop (Suc k) (convergence st0))"
      using k by simp
    fix i assume "i < length ((map ?r [0..<k] @ drop k (convergence st0))[k := ?r k])"
    then have i: "i < length (convergence st0)" using k by simp
    consider "i < k" | "i = k" | "k < i" by linarith
    then show "(map ?r [0..<k] @ drop k (convergence st0))[k := ?r k] ! i
             = (map ?r [0..<Suc k] @ drop (Suc k) (convergence st0)) ! i"
    proof cases
      case 1
      then show ?thesis by (simp add: nth_append nth_list_update del: upt_Suc)
    next
      case 2
      then show ?thesis using k by (simp add: nth_append nth_list_update del: upt_Suc)
    next
      case 3
      then have "i - k = Suc (i - Suc k)" by simp
      then show ?thesis using 3 i k
        by (simp add: nth_append nth_list_update del: upt_Suc)
    qed
  qed
  have f: "\<not> success st'" "u_arr st' = u" "n_last st' = Some k"
    "convergence st' = (convergence st)[k := \<bar>ub - u_b\<bar>]"
    "(u_prime_rhs st', du_prime st') = ?g (Suc k)"
    using nt st(2) s unfolding st'_def
    by (simp_all add: stopping_criteria_def Let_def ub_def case_prod_unfold)
  have "shoot_loop api x u_a u_b ([0..<k] @ [k]) st0 = shoot_loop api x u_a u_b [k] st"
    by (rule shoot_loop_append[OF st(1,2)])
  also have "\<dots> = Inr st'" using it sc by (simp add: ub_def)
  finally have run: "shoot_loop api x u_a u_b [0..<Suc k] st0 = Inr st'" by simp
  have "convergence st' = map ?r [0..<Suc k] @ drop (Suc k) (convergence st0)"
    using f(4) st(6) upd res by simp
  then show ?case using run f lu by (intro exI[of _ st']) simp
qed

text \<open>The three ways the cell can end, read off the sequence of guesses.\<close>

lemma shooting_prefix:
  assumes lin: "linspace a b N = Inr x" and N: "1 \<le> N"
    and k: "k \<le> MAX_ITERATIONS" and unc: "unconverged api x u_a u_b (s0, ds0) k"
  shows "\<exists>st. shoot_loop api x u_a u_b [0..<k]
               \<lparr>u_prime_rhs = s0, du_prime = ds0, success = False,
                u_arr = (map mem [0..<nat N], map (\<lambda>c. mem (nat N + c)) [0..<nat N]),
                convergence = replicate MAX_ITERATIONS 0, n_last = None\<rparr> = Inr st
            \<and> \<not> success st
            \<and> (u_prime_rhs st, du_prime st) = guess api x u_a u_b (s0, ds0) k
            \<and> length (fst (u_arr st)) = length x \<and> length (snd (u_arr st)) = length x
            \<and> convergence st =
                map (\<lambda>j. residual api x u_a u_b (fst (guess api x u_a u_b (s0, ds0) j))) [0..<k]
                @ replicate (MAX_ITERATIONS - k) 0
            \<and> n_last st = (if k = 0 then None else Some (k - 1))"
proof -
  let ?st0 = "\<lparr>u_prime_rhs = s0, du_prime = ds0, success = False,
                u_arr = (map mem [0..<nat N], map (\<lambda>c. mem (nat N + c)) [0..<nat N]),
                convergence = replicate MAX_ITERATIONS 0, n_last = None\<rparr>"
  have lx: "length x = nat N" using linspace_length[OF lin] by simp
  then have x: "x \<noteq> []" using N by auto
  have l: "length (fst (u_arr ?st0)) = length x" "length (snd (u_arr ?st0)) = length x"
    using lx by simp_all
  have ns: "\<not> success ?st0" by simp
  have k': "k \<le> length (convergence ?st0)" using k by simp
  have unc': "unconverged api x u_a u_b (u_prime_rhs ?st0, du_prime ?st0) k" using unc by simp
  from shoot_loop_unconverged[OF x l ns k' unc'] obtain st where
    st: "shoot_loop api x u_a u_b [0..<k] ?st0 = Inr st" "\<not> success st"
      "(u_prime_rhs st, du_prime st) = guess api x u_a u_b (u_prime_rhs ?st0, du_prime ?st0) k"
      "length (fst (u_arr st)) = length x" "length (snd (u_arr st)) = length x"
      "convergence st =
         map (\<lambda>j. residual api x u_a u_b
                 (fst (guess api x u_a u_b (u_prime_rhs ?st0, du_prime ?st0) j))) [0..<k]
         @ drop k (convergence ?st0)"
      "n_last st = (if k = 0 then n_last ?st0 else Some (k - 1))"
    by blast
  show ?thesis
    using st by (intro exI[of _ st]) simp
qed

lemma shooting_integrator_failure:
  assumes lin: "linspace a b N = Inr x" and N: "1 \<le> N"
    and k: "k < MAX_ITERATIONS" and unc: "unconverged api x u_a u_b (s0, ds0) k"
    and fails: "integrator_fails api x u_a (fst (guess api x u_a u_b (s0, ds0) k))"
  shows "shooting api mem a b N u_a u_b s0 ds0 = Inl integration_failed"
proof -
  let ?st0 = "\<lparr>u_prime_rhs = s0, du_prime = ds0, success = False,
                u_arr = (map mem [0..<nat N], map (\<lambda>c. mem (nat N + c)) [0..<nat N]),
                convergence = replicate MAX_ITERATIONS 0, n_last = None\<rparr>"
  have x: "x \<noteq> []" using linspace_length[OF lin] N by auto
  from shooting_prefix[OF lin N less_imp_le[OF k] unc, of mem] obtain st where
    st: "shoot_loop api x u_a u_b [0..<k] ?st0 = Inr st" "\<not> success st"
      "(u_prime_rhs st, du_prime st) = guess api x u_a u_b (s0, ds0) k"
      "length (fst (u_arr st)) = length x" "length (snd (u_arr st)) = length x"
    by blast
  have s: "u_prime_rhs st = fst (guess api x u_a u_b (s0, ds0) k)"
    using st(3) by (metis fst_conv)
  have len: "fst (u_arr st) \<noteq> []" "snd (u_arr st) \<noteq> []" using st(4,5) x by auto
  have f: "list_ex (\<lambda>s. \<not> ode_successful api s) (ode_run api (ode_init api (u_a, u_prime_rhs st)) (tl x))"
    using fails unfolding integrator_fails_def s .
  have "shoot_loop api x u_a u_b ([0..<k] @ k # [Suc k..<MAX_ITERATIONS]) ?st0
      = shoot_loop api x u_a u_b (k # [Suc k..<MAX_ITERATIONS]) st"
    by (rule shoot_loop_append[OF st(1,2)])
  also have "\<dots> = Inl integration_failed"
    by (simp add: shoot_iteration_integration_failure[OF len f])
  finally show ?thesis
    unfolding shooting_unfold[OF lin] upt_split[OF k] .
qed

lemma shooting_converges:
  assumes lin: "linspace a b N = Inr x" and N: "1 \<le> N"
    and k: "k < MAX_ITERATIONS" and unc: "unconverged api x u_a u_b (s0, ds0) k"
    and ok: "\<not> integrator_fails api x u_a (fst (guess api x u_a u_b (s0, ds0) k))"
    and tol: "residual api x u_a u_b (fst (guess api x u_a u_b (s0, ds0) k)) < TOLERANCE"
  shows "\<exists>fin. shooting api mem a b N u_a u_b s0 ds0 = Inr fin \<and> success fin \<and> n_last fin = Some k"
proof -
  let ?st0 = "\<lparr>u_prime_rhs = s0, du_prime = ds0, success = False,
                u_arr = (map mem [0..<nat N], map (\<lambda>c. mem (nat N + c)) [0..<nat N]),
                convergence = replicate MAX_ITERATIONS 0, n_last = None\<rparr>"
  have x: "x \<noteq> []" using linspace_length[OF lin] N by auto
  from shooting_prefix[OF lin N less_imp_le[OF k] unc, of mem] obtain st where
    st: "shoot_loop api x u_a u_b [0..<k] ?st0 = Inr st" "\<not> success st"
      "(u_prime_rhs st, du_prime st) = guess api x u_a u_b (s0, ds0) k"
      "length (fst (u_arr st)) = length x" "length (snd (u_arr st)) = length x"
      "convergence st =
                map (\<lambda>j. residual api x u_a u_b (fst (guess api x u_a u_b (s0, ds0) j))) [0..<k]
                @ replicate (MAX_ITERATIONS - k) 0"
    by blast
  have s: "u_prime_rhs st = fst (guess api x u_a u_b (s0, ds0) k)"
    using st(3) by (metis fst_conv)
  have kl: "k < length (convergence st)" using st(6) k by simp
  from shoot_iteration_run[OF x st(4,5) kl, of api u_a u_b] ok s obtain u where
    it: "shoot_iteration api x u_a u_b k st =
           Inr (stopping_criteria u_b k (computed_ub api x u_a (u_prime_rhs st)) (st\<lparr>u_arr := u, n_last := Some k\<rparr>))"
    by auto
  define fin where "fin = snd (stopping_criteria u_b k (computed_ub api x u_a (u_prime_rhs st))
      (st\<lparr>u_arr := u, n_last := Some k\<rparr>))"
  have lt: "\<bar>computed_ub api x u_a (u_prime_rhs st) - u_b\<bar> < TOLERANCE"
    using tol by (simp add: residual_def s)
  have sc: "stopping_criteria u_b k (computed_ub api x u_a (u_prime_rhs st))
      (st\<lparr>u_arr := u, n_last := Some k\<rparr>) = (True, fin)"
    unfolding fin_def using lt by (simp add: stopping_criteria_def Let_def)
  have f: "success fin" "n_last fin = Some k"
    unfolding fin_def using lt by (simp_all add: stopping_criteria_def Let_def)
  have "shoot_loop api x u_a u_b ([0..<k] @ k # [Suc k..<MAX_ITERATIONS]) ?st0
      = shoot_loop api x u_a u_b (k # [Suc k..<MAX_ITERATIONS]) st"
    by (rule shoot_loop_append[OF st(1,2)])
  also have "\<dots> = Inr fin" using it sc by simp
  finally have "shooting api mem a b N u_a u_b s0 ds0 = Inr fin"
    unfolding shooting_unfold[OF lin] upt_split[OF k] .
  then show ?thesis using f by blast
qed

lemma shooting_unconverged:
  assumes lin: "linspace a b N = Inr x" and N: "1 \<le> N"
    and unc: "unconverged api x u_a u_b (s0, ds0) MAX_ITERATIONS"
  shows "\<exists>fin. shooting api mem a b N u_a u_b s0 ds0 = Inr fin \<and> \<not> success fin
            \<and> n_last fin = Some (MAX_ITERATIONS - 1)
            \<and> convergence fin =
                map (\<lambda>j. residual api x u_a u_b (fst (guess api x u_a u_b (s0, ds0) j)))
                  [0..<MAX_ITERATIONS]
            \<and> list_all (\<lambda>r. TOLERANCE \<le> r) (convergence fin)"
proof -
  from shooting_prefix[OF lin N order_refl unc, of mem] obtain st where
    st: "shooting api mem a b N u_a u_b s0 ds0 = Inr st" "\<not> success st"
      "convergence st =
         map (\<lambda>j. residual api x u_a u_b (fst (guess api x u_a u_b (s0, ds0) j))) [0..<MAX_ITERATIONS]"
      "n_last st = (if MAX_ITERATIONS = 0 then None else Some (MAX_ITERATIONS - 1))"
    unfolding shooting_unfold[OF lin] by auto
  have "list_all (\<lambda>r. TOLERANCE \<le> r) (convergence st)"
    unfolding st(3) using unc by (simp add: unconverged_def list_all_iff)
  moreover have "n_last st = Some (MAX_ITERATIONS - 1)" using st(4) by (simp add: MAX_ITERATIONS_def)
  ultimately show ?thesis using st(1,2,3) by blast
qed

lemma shooting_returns_or_unconverged:
  assumes lin: "linspace a b N = Inr x" and N: "1 \<le> N"
    and H: "\<forall>k<MAX_ITERATIONS. unconverged api x u_a u_b (s0, ds0) k \<longrightarrow>
              \<not> integrator_fails api x u_a (fst (guess api x u_a u_b (s0, ds0) k))"
  shows "k \<le> MAX_ITERATIONS \<Longrightarrow>
         unconverged api x u_a u_b (s0, ds0) k \<or> (\<exists>fin. shooting api mem a b N u_a u_b s0 ds0 = Inr fin)"
proof (induction k)
  case 0
  then show ?case by (simp add: unconverged_def)
next
  case (Suc k)
  then have k: "k < MAX_ITERATIONS" by simp
  show ?case
  proof (cases "\<exists>fin. shooting api mem a b N u_a u_b s0 ds0 = Inr fin")
    case True
    then show ?thesis by simp
  next
    case False
    with Suc.IH k have unc: "unconverged api x u_a u_b (s0, ds0) k" by simp
    with H k have ok: "\<not> integrator_fails api x u_a (fst (guess api x u_a u_b (s0, ds0) k))" by simp
    have "TOLERANCE \<le> residual api x u_a u_b (fst (guess api x u_a u_b (s0, ds0) k))"
    proof (rule ccontr)
      assume "\<not> TOLERANCE \<le> residual api x u_a u_b (fst (guess api x u_a u_b (s0, ds0) k))"
      then have "residual api x u_a u_b (fst (guess api x u_a u_b (s0, ds0) k)) < TOLERANCE" by simp
      from shooting_converges[OF lin N k unc ok this, of mem] False show False by blast
    qed
    then show ?thesis using unc ok by (simp add: unconverged_Suc)
  qed
qed

lemma shooting_Inl_cause:
  assumes lin: "linspace a b N = Inr x" and N: "1 \<le> N"
    and err: "shooting api mem a b N u_a u_b s0 ds0 = Inl e"
  shows "\<exists>k<MAX_ITERATIONS. unconverged api x u_a u_b (s0, ds0) k
            \<and> integrator_fails api x u_a (fst (guess api x u_a u_b (s0, ds0) k))"
proof (rule ccontr)
  assume "\<not> ?thesis"
  then have H: "\<forall>k<MAX_ITERATIONS. unconverged api x u_a u_b (s0, ds0) k \<longrightarrow>
              \<not> integrator_fails api x u_a (fst (guess api x u_a u_b (s0, ds0) k))"
    by blast
  from shooting_returns_or_unconverged[OF lin N H order_refl, of mem]
  have "\<exists>fin. shooting api mem a b N u_a u_b s0 ds0 = Inr fin"
    using shooting_unconverged[OF lin N, of api u_a u_b s0 ds0 mem] by blast
  then show False using err by simp
qed

text \<open>The two runs of the shooting cell, in these terms.\<close>

lemma failing_guesses:
  "unconverged (linear_ode (5 / 2)) [0, 1, 2] 0 3 (1, 1 / 2) 1
   \<and> integrator_fails (linear_ode (5 / 2)) [0, 1, 2] 0
       (fst (guess (linear_ode (5 / 2)) [0, 1, 2] 0 3 (1, 1 / 2) 1))"
  by (simp add: unconverged_def integrator_fails_def residual_def computed_ub_def linear_ode_def
      TOLERANCE_def)

lemma climbing_ub:
  "computed_ub (linear_ode 1000) [0, 2] 0 s = 2 * s"
  "integrator_fails (linear_ode 1000) [0, 2] 0 s \<longleftrightarrow> \<not> \<bar>2 * s\<bar> \<le> 1000"
  by (simp_all add: computed_ub_def integrator_fails_def linear_ode_def mult.commute)

lemma climbing_guess:
  "k \<le> 100 \<Longrightarrow> guess (linear_ode 1000) [0, 2] 0 1000 (1, 1 / 2) k = (1 + real k / 2, 1 / 2)"
proof (induction k)
  case 0
  then show ?case by simp
next
  case (Suc k)
  then have g: "guess (linear_ode 1000) [0, 2] 0 1000 (1, 1 / 2) k = (1 + real k / 2, 1 / 2)"
    and k: "k < 100" by simp_all
  show ?case using k by (simp add: g climbing_ub add_divide_distrib)
qed

lemma climbing_residual:
  "k < 100 \<Longrightarrow>
   residual (linear_ode 1000) [0, 2] 0 1000 (fst (guess (linear_ode 1000) [0, 2] 0 1000 (1, 1 / 2) k))
     = 998 - real k"
  by (simp add: climbing_guess residual_def climbing_ub)

lemma climbing_unconverged:
  "unconverged (linear_ode 1000) [0, 2] 0 1000 (1, 1 / 2) MAX_ITERATIONS"
  unfolding unconverged_iff MAX_ITERATIONS_def
proof (intro allI impI conjI)
  fix j :: nat assume j: "j < 100"
  show "\<not> integrator_fails (linear_ode 1000) [0, 2] 0
            (fst (guess (linear_ode 1000) [0, 2] 0 1000 (1, 1 / 2) j))"
    using j by (simp add: climbing_guess climbing_ub)
  show "TOLERANCE \<le> residual (linear_ode 1000) [0, 2] 0 1000
            (fst (guess (linear_ode 1000) [0, 2] 0 1000 (1, 1 / 2) j))"
    using j by (simp add: climbing_residual TOLERANCE_def)
qed

lemma climbing_trace:
  "convergence (climbing 100) =
     map (\<lambda>k. residual (linear_ode 1000) [0, 2] 0 1000
                (fst (guess (linear_ode 1000) [0, 2] 0 1000 (1, 1 / 2) k))) [0..<MAX_ITERATIONS]"
  by (simp add: climbing_def MAX_ITERATIONS_def climbing_residual del: upt_Suc)



section \<open>The claims\<close>

subsection \<open>The Dirichlet system\<close>

text \<open>
  Claim C1, at a single interior point.  For \<open>N = 1\<close> the first entry of the
  right-hand side is also the last one, and the cell subtracts both boundary terms
  from it: with \<open>f = exp\<close>, \<open>u_a = 1\<close>, \<open>u_b = 3\<close> on \<open>[0, 1]\<close> the entry is
  \<open>f(x_1) - 16\<close>, neither \<open>f(x_1) - u_a / \<Delta>x\<^sup>2 = f(x_1) - 4\<close> nor
  \<open>f(x_N) - u_b / \<Delta>x\<^sup>2 = f(x_1) - 12\<close>.
\<close>

theorem dirichlet_rhs_single_point_counterexample:
  "dirichlet_assemble exp 0 1 1 3 1 = Inr ([0, 1 / 2, 1], [[- 8]], [exp (1 / 2) - 16])
   \<and> exp (1 / 2) - 16 \<noteq> exp (1 / 2) - (1::real) / ((1 - 0) / (1 + 1))\<^sup>2
   \<and> exp (1 / 2) - 16 \<noteq> exp (1 / 2) - (3::real) / ((1 - 0) / (1 + 1))\<^sup>2"
  by (simp add: dirichlet_assemble_errors grid_def tridiag_def stencil_def dirichlet_rhs_def
      power2_eq_square numeral_3_eq_3)

text \<open>
  Claim C1, amended.  For \<open>N \<ge> 1\<close> interior points on \<open>[a, b]\<close> with \<open>a \<noteq> b\<close> and
  \<open>\<Delta>x = (b - a) / (N + 1)\<close>, the cell assembles the grid \<open>x_i = a + i \<Delta>x\<close>, the
  \<open>N \<times> N\<close> matrix with \<open>-2 / \<Delta>x\<^sup>2\<close> on the diagonal, \<open>1 / \<Delta>x\<^sup>2\<close> on the sub- and
  super-diagonal and zero elsewhere, and the right-hand side whose entry \<open>i\<close> is
  \<open>f(x_i)\<close>, less \<open>u_a / \<Delta>x\<^sup>2\<close> in the first entry and less \<open>u_b / \<Delta>x\<^sup>2\<close> in the last
  entry (both in the only entry when \<open>N = 1\<close>).
\<close>

theorem dirichlet_system_assembled:
  assumes "1 \<le> N" and "a \<noteq> b"
  shows "dirichlet_assemble f a b u_a u_b N =
         Inr (map (grid a b (nat N)) [0..<nat N + 2],
              tridiag (nat N) (1 / ((b - a) / real (nat N + 1))\<^sup>2),
              map (dirichlet_rhs f a b u_a u_b (nat N)) [0..<nat N])"
  using assms by (rule dirichlet_assemble_closed)

theorem dirichlet_system_assembled_witness:
  "(1::int) \<le> 2 \<and> (0::real) \<noteq> 1
   \<and> dirichlet_assemble (\<lambda>x. x) 0 1 1 3 2 =
       Inr ([0, 1 / 3, 2 / 3, 1], [[- 18, 9], [9, - 18]], [1 / 3 - 9, 2 / 3 - 27])"
proof -
  have h1: "(1::int) \<le> 2" and h2: "(0::real) \<noteq> 1" by simp_all
  show ?thesis
    using dirichlet_system_assembled[OF h1 h2, of "\<lambda>x. x" 1 3]
    by (simp add: grid_def tridiag_def stencil_def dirichlet_rhs_def power2_eq_square
        numeral_2_eq_2 numeral_3_eq_3)
qed

subsection \<open>Linear functions are reproduced exactly\<close>



subsection \<open>The boundary values in the output\<close>

text \<open>
  Claim C3.  Whenever the Dirichlet cell produces an output \<open>U\<close>, it has \<open>N + 2\<close>
  entries, the first is \<open>u_a\<close> and the last is \<open>u_b\<close>, whatever the linear solve
  returned; and when the solve returns a vector \<open>v\<close> of length \<open>N\<close> for the
  assembled system, the output is \<open>u_a\<close>, then \<open>v\<close>, then \<open>u_b\<close>.  (The cell
  produces no output for \<open>N < 1\<close> or \<open>a = b\<close>: it raises.)
\<close>

theorem dirichlet_fd_boundary_values:
  "(dirichlet_fd solve mem f a b u_a u_b N = Inr U \<longrightarrow>
      int (length U) = N + 2 \<and> hd U = u_a \<and> last U = u_b)
 \<and> (dirichlet_assemble f a b u_a u_b N = Inr (x_bc, A, rhs) \<and> solve A rhs = Inr v \<and> length v = nat N \<longrightarrow>
      dirichlet_fd solve mem f a b u_a u_b N = Inr (u_a # v @ [u_b]))"
proof (intro conjI impI)
  assume r: "dirichlet_fd solve mem f a b u_a u_b N = Inr U"
  then have N: "1 \<le> N \<and> a \<noteq> b"
    unfolding dirichlet_fd_unfold by (auto split: if_splits)
  with r obtain v where
    U: "(if length v = nat N then Inr (u_a # v @ [u_b])
          else if length v = 1 then Inr (u_a # replicate (nat N) (hd v) @ [u_b])
          else Inl ValueError) = Inr U"
    unfolding dirichlet_fd_unfold by (auto simp: ebind_Inr_iff)
  have "int (length U) = N + 2 \<and> hd U = u_a \<and> last U = u_b"
  proof (cases "length v = nat N")
    case True
    with U have "U = u_a # v @ [u_b]" by simp
    then show ?thesis using True N by simp
  next
    case False
    with U have "U = u_a # replicate (nat N) (hd v) @ [u_b]"
      by (auto split: if_splits)
    then show ?thesis using N by simp
  qed
  then show "int (length U) = N + 2" "hd U = u_a" "last U = u_b"
    by simp_all
next
  assume h: "dirichlet_assemble f a b u_a u_b N = Inr (x_bc, A, rhs) \<and> solve A rhs = Inr v \<and> length v = nat N"
  then have N: "1 \<le> N \<and> a \<noteq> b"
    unfolding dirichlet_assemble_errors by (auto split: if_splits)
  with h have "A = tridiag (nat N) (1 / ((b - a) / real (nat N + 1))\<^sup>2)"
    "rhs = map (dirichlet_rhs f a b u_a u_b (nat N)) [0..<nat N]"
    unfolding dirichlet_assemble_errors by simp_all
  with h N show "dirichlet_fd solve mem f a b u_a u_b N = Inr (u_a # v @ [u_b])"
    unfolding dirichlet_fd_unfold by simp
qed

theorem dirichlet_fd_boundary_values_witness:
  "dirichlet_fd gauss_solve (\<lambda>i. 7) (\<lambda>x. 0) 0 1 1 3 2 = Inr [1, 5 / 3, 7 / 3, 3]
   \<and> int (length [1, 5 / 3, 7 / 3, 3 :: real]) = 2 + 2
   \<and> hd [1, 5 / 3, 7 / 3, 3 :: real] = 1 \<and> last [1, 5 / 3, 7 / 3, 3 :: real] = 3
   \<and> dirichlet_assemble (\<lambda>x. 0) 0 1 1 3 2 =
       Inr ([0, 1 / 3, 2 / 3, 1], [[- 18, 9], [9, - 18]], [- 9, - 27])
   \<and> gauss_solve [[- 18, 9], [9, - 18]] [- 9, - 27] = Inr [5 / 3, 7 / 3]
   \<and> length [5 / 3, 7 / 3 :: real] = nat 2"
proof -
  have l: "length [5 / 3, 7 / 3 :: real] = nat 2" by simp
  note t = dirichlet_fd_boundary_values[of gauss_solve "\<lambda>i. 7" "\<lambda>x. 0" 0 1 1 3 2
      "[1, 5 / 3, 7 / 3, 3]" "[0, 1 / 3, 2 / 3, 1]" "[[- 18, 9], [9, - 18]]" "[- 9, - 27]"
      "[5 / 3, 7 / 3]"]
  from t dirichlet_assemble_linear_2 gauss_solve_2x2 l
  have r: "dirichlet_fd gauss_solve (\<lambda>i. 7) (\<lambda>x. 0) 0 1 1 3 2 = Inr [1, 5 / 3, 7 / 3, 3]"
    by simp
  with t have "int (length [1, 5 / 3, 7 / 3, 3 :: real]) = 2 + 2
   \<and> hd [1, 5 / 3, 7 / 3, 3 :: real] = 1 \<and> last [1, 5 / 3, 7 / 3, 3 :: real] = 3"
    by blast
  with r dirichlet_assemble_linear_2 gauss_solve_2x2 l show ?thesis by blast
qed

subsection \<open>The system of the mixed problem\<close>

text \<open>
  Claim C7.  For \<open>N \<ge> 1\<close> and \<open>a \<noteq> b\<close> the mixed cell hands the solver the
  \<open>(N + 2) \<times> (N + 2)\<close> system whose row 0 is the identity row with right-hand side
  \<open>u_a\<close>, whose last row holds \<open>1 / (2 \<Delta>x)\<close>, \<open>-4 / (2 \<Delta>x)\<close>, \<open>3 / (2 \<Delta>x)\<close> in columns
  \<open>N - 1\<close>, \<open>N\<close>, \<open>N + 1\<close> and zero elsewhere with right-hand side \<open>u_x_b\<close>, and whose
  rows \<open>1..N\<close> keep the stencil \<open>[1, -2, 1] / \<Delta>x\<^sup>2\<close> with right-hand side \<open>f(x_i)\<close>.
\<close>

theorem mixed_system_assembled:
  assumes "1 \<le> N" and "a \<noteq> b"
  shows "mixed_assemble f a b u_a u_x_b N =
         Inr (map (grid a b (nat N)) [0..<nat N + 2],
              mixed_matrix (nat N) ((b - a) / real (nat N + 1)),
              map (mixed_rhs f a b u_a u_x_b (nat N)) [0..<nat N + 2])"
  using assms by (rule mixed_assemble_closed)

theorem mixed_system_assembled_witness:
  "(1::int) \<le> 2 \<and> (0::real) \<noteq> 1
   \<and> mixed_assemble (\<lambda>x. x) 0 1 3 (- 5) 2 =
       Inr ([0, 1 / 3, 2 / 3, 1],
            [[1, 0, 0, 0], [9, - 18, 9, 0], [0, 9, - 18, 9], [0, 3 / 2, - 6, 9 / 2]],
            [3, 1 / 3, 2 / 3, - 5])"
proof -
  have h1: "(1::int) \<le> 2" and h2: "(0::real) \<noteq> 1" by simp_all
  show ?thesis
    using mixed_system_assembled[OF h1 h2, of "\<lambda>x. x" 3 "- 5"]
    by (simp add: grid_def mixed_matrix_def stencil_def mixed_rhs_def power2_eq_square
        numeral_2_eq_2 numeral_3_eq_3)
qed

subsection \<open>The shooting loop\<close>



text \<open>
  Claim C5.  On a grid of \<open>N \<ge> 1\<close> points, the two failure outcomes of the cell.

  Integrator failure is fatal: if the first \<open>k\<close> iterations have run without meeting
  the stopping criterion and the integrator reports failure at some output point of
  iteration \<open>k\<close>, the cell ends in the exception ``Integration Failed!'' and returns no
  state.  This is stated twice, on the states of the loop and on the sequence of
  guesses (\<^const>\<open>unconverged\<close>, \<^const>\<open>integrator_fails\<close>).  It is the only way the cell
  can end in an exception: an exception is ``Integration Failed!'', and then the
  integrator has reported failure in an iteration that was reached without
  convergence.

  Non-convergence is not fatal: if in none of the \<^const>\<open>MAX_ITERATIONS\<close> iterations the
  integrator reports failure or the residual is below the tolerance, the cell returns
  a state with the flag still false, and the trace in it holds the residuals of all
  the iterations, none below the tolerance.  Conversely, a state returned with the
  flag false has all \<^const>\<open>MAX_ITERATIONS\<close> iterations recorded, none below the tolerance.
\<close>

theorem shooting_failure_modes:
  assumes "linspace a b N = Inr x" and "1 \<le> N"
  shows "(k < MAX_ITERATIONS
          \<and> shoot_loop api x u_a u_b [0..<k]
               \<lparr>u_prime_rhs = s0, du_prime = ds0, success = False,
                u_arr = (map mem [0..<nat N], map (\<lambda>c. mem (nat N + c)) [0..<nat N]),
                convergence = replicate MAX_ITERATIONS 0, n_last = None\<rparr> = Inr st
          \<and> \<not> success st
          \<and> list_ex (\<lambda>s. \<not> ode_successful api s)
                (ode_run api (ode_init api (u_a, u_prime_rhs st)) (tl x))
        \<longrightarrow> shooting api mem a b N u_a u_b s0 ds0 = Inl integration_failed)
       \<and> (j < MAX_ITERATIONS
          \<and> unconverged api x u_a u_b (s0, ds0) j
          \<and> integrator_fails api x u_a (fst (guess api x u_a u_b (s0, ds0) j))
        \<longrightarrow> shooting api mem a b N u_a u_b s0 ds0 = Inl integration_failed)
       \<and> (shooting api mem a b N u_a u_b s0 ds0 = Inl e
        \<longrightarrow> e = integration_failed
          \<and> (\<exists>i<MAX_ITERATIONS. unconverged api x u_a u_b (s0, ds0) i
                \<and> integrator_fails api x u_a (fst (guess api x u_a u_b (s0, ds0) i))))
       \<and> (unconverged api x u_a u_b (s0, ds0) MAX_ITERATIONS
        \<longrightarrow> (\<exists>r. shooting api mem a b N u_a u_b s0 ds0 = Inr r
                \<and> \<not> success r
                \<and> n_last r = Some (MAX_ITERATIONS - 1)
                \<and> convergence r =
                    map (\<lambda>i. residual api x u_a u_b (fst (guess api x u_a u_b (s0, ds0) i)))
                      [0..<MAX_ITERATIONS]
                \<and> list_all (\<lambda>r. TOLERANCE \<le> r) (convergence r)))
       \<and> (shooting api mem a b N u_a u_b s0 ds0 = Inr fin \<and> \<not> success fin
        \<longrightarrow> n_last fin = Some (MAX_ITERATIONS - 1)
          \<and> length (convergence fin) = MAX_ITERATIONS
          \<and> list_all (\<lambda>r. TOLERANCE \<le> r) (convergence fin))"
proof -
  let ?st0 = "\<lparr>u_prime_rhs = s0, du_prime = ds0, success = False,
                u_arr = (map mem [0..<nat N], map (\<lambda>c. mem (nat N + c)) [0..<nat N]),
                convergence = replicate MAX_ITERATIONS 0, n_last = None\<rparr>"
  note unf = shooting_unfold[OF assms(1), of api mem u_a u_b s0 ds0]
  have N: "0 < nat N" using assms(2) by simp
  have a: "shooting api mem a b N u_a u_b s0 ds0 = Inl integration_failed"
    if k: "k < MAX_ITERATIONS" and run: "shoot_loop api x u_a u_b [0..<k] ?st0 = Inr st"
      and ns: "\<not> success st"
      and fail: "list_ex (\<lambda>s. \<not> ode_successful api s) (ode_run api (ode_init api (u_a, u_prime_rhs st)) (tl x))"
  proof -
    have len: "fst (u_arr st) \<noteq> []" "snd (u_arr st) \<noteq> []"
      using shoot_loop_lengths[OF run] N by auto
    have "shoot_loop api x u_a u_b ([0..<k] @ k # [Suc k..<MAX_ITERATIONS]) ?st0
        = shoot_loop api x u_a u_b (k # [Suc k..<MAX_ITERATIONS]) st"
      by (rule shoot_loop_append[OF run ns])
    also have "\<dots> = Inl integration_failed"
      by (simp add: shoot_iteration_integration_failure[OF len fail])
    finally show ?thesis
      unfolding unf upt_split[OF k] .
  qed
  have b: "e = integration_failed"
    if "shooting api mem a b N u_a u_b s0 ds0 = Inl e"
  proof -
    from that have run: "shoot_loop api x u_a u_b [0..<MAX_ITERATIONS] ?st0 = Inl e"
      unfolding unf .
    have ne: "fst (u_arr ?st0) \<noteq> []" using N by simp
    have ix: "\<forall>n\<in>set [0..<MAX_ITERATIONS]. n < length (convergence ?st0)" by simp
    show ?thesis by (rule shoot_loop_Inl[OF run ne ix])
  qed
  have c: "n_last fin = Some (MAX_ITERATIONS - 1) \<and> length (convergence fin) = MAX_ITERATIONS
          \<and> list_all (\<lambda>r. TOLERANCE \<le> r) (convergence fin)"
    if run: "shooting api mem a b N u_a u_b s0 ds0 = Inr fin" and ns: "\<not> success fin"
  proof -
    from shooting_trace[OF run] have l: "length (convergence fin) = MAX_ITERATIONS"
      and "\<exists>m<MAX_ITERATIONS. n_last fin = Some m
            \<and> convergence fin ! m = \<bar>last (fst (u_arr fin)) - u_b\<bar>
            \<and> (success fin \<longleftrightarrow> convergence fin ! m < TOLERANCE)
            \<and> list_all (\<lambda>r. TOLERANCE \<le> r) (take m (convergence fin))
            \<and> (success fin \<or> m = MAX_ITERATIONS - 1)"
      by simp_all
    then obtain m where m0: "n_last fin = Some m"
      "success fin \<longleftrightarrow> convergence fin ! m < TOLERANCE"
      "list_all (\<lambda>r. TOLERANCE \<le> r) (take m (convergence fin))"
      "success fin \<or> m = MAX_ITERATIONS - 1"
      by blast
    have m: "m = MAX_ITERATIONS - 1" "n_last fin = Some m" "length (convergence fin) = MAX_ITERATIONS"
      "True" "\<not> convergence fin ! m < TOLERANCE"
      "list_all (\<lambda>r. TOLERANCE \<le> r) (take m (convergence fin))"
      using m0 ns l by simp_all
    have sm: "Suc m = length (convergence fin)"
      using m(1,3) by (simp add: MAX_ITERATIONS_def)
    then have "take (Suc m) (convergence fin) = take m (convergence fin) @ [convergence fin ! m]"
      by (intro take_Suc_conv_app_nth) simp
    moreover have "take (Suc m) (convergence fin) = convergence fin"
      using sm by simp
    ultimately have "convergence fin = take m (convergence fin) @ [convergence fin ! m]"
      by simp
    moreover have "list_all (\<lambda>r. TOLERANCE \<le> r) (take m (convergence fin) @ [convergence fin ! m])"
      using m(5,6) by simp
    ultimately have "list_all (\<lambda>r. TOLERANCE \<le> r) (convergence fin)"
      by metis
    then show ?thesis using m(1,2,3) by simp
  qed
  show ?thesis
  proof (intro conjI impI)
    assume "k < MAX_ITERATIONS \<and> shoot_loop api x u_a u_b [0..<k] ?st0 = Inr st \<and> \<not> success st
          \<and> list_ex (\<lambda>s. \<not> ode_successful api s)
                (ode_run api (ode_init api (u_a, u_prime_rhs st)) (tl x))"
    then have "k < MAX_ITERATIONS" "shoot_loop api x u_a u_b [0..<k] ?st0 = Inr st" "\<not> success st"
      "list_ex (\<lambda>s. \<not> ode_successful api s)
                (ode_run api (ode_init api (u_a, u_prime_rhs st)) (tl x))"
      by simp_all
    then show "shooting api mem a b N u_a u_b s0 ds0 = Inl integration_failed"
      by (rule a)
  next
    assume "j < MAX_ITERATIONS \<and> unconverged api x u_a u_b (s0, ds0) j
          \<and> integrator_fails api x u_a (fst (guess api x u_a u_b (s0, ds0) j))"
    then have "j < MAX_ITERATIONS" "unconverged api x u_a u_b (s0, ds0) j"
      "integrator_fails api x u_a (fst (guess api x u_a u_b (s0, ds0) j))"
      by simp_all
    then show "shooting api mem a b N u_a u_b s0 ds0 = Inl integration_failed"
      by (rule shooting_integrator_failure[OF assms])
  next
    assume "shooting api mem a b N u_a u_b s0 ds0 = Inl e"
    then show "e = integration_failed" by (rule b)
  next
    assume "shooting api mem a b N u_a u_b s0 ds0 = Inl e"
    then show "\<exists>i<MAX_ITERATIONS. unconverged api x u_a u_b (s0, ds0) i
                \<and> integrator_fails api x u_a (fst (guess api x u_a u_b (s0, ds0) i))"
      by (rule shooting_Inl_cause[OF assms])
  next
    assume "unconverged api x u_a u_b (s0, ds0) MAX_ITERATIONS"
    then show "\<exists>r. shooting api mem a b N u_a u_b s0 ds0 = Inr r
                \<and> \<not> success r
                \<and> n_last r = Some (MAX_ITERATIONS - 1)
                \<and> convergence r =
                    map (\<lambda>i. residual api x u_a u_b (fst (guess api x u_a u_b (s0, ds0) i)))
                      [0..<MAX_ITERATIONS]
                \<and> list_all (\<lambda>r. TOLERANCE \<le> r) (convergence r)"
      by (rule shooting_unconverged[OF assms])
  next
    assume h: "shooting api mem a b N u_a u_b s0 ds0 = Inr fin \<and> \<not> success fin"
    show "n_last fin = Some (MAX_ITERATIONS - 1)" "length (convergence fin) = MAX_ITERATIONS"
        "list_all (\<lambda>r. TOLERANCE \<le> r) (convergence fin)"
      using c[of] h by simp_all
  qed
qed

theorem shooting_failure_modes_witness:
  "linspace 0 2 3 = Inr [0, 1, 2] \<and> (1::int) \<le> 3 \<and> 1 < MAX_ITERATIONS
   \<and> shoot_loop (linear_ode (5 / 2)) [0, 1, 2] 0 3 [0..<1]
       \<lparr>u_prime_rhs = 1, du_prime = 1 / 2, success = False,
        u_arr = (map (\<lambda>i. 0) [0..<nat 3], map (\<lambda>c. 0) [0..<nat 3]),
        convergence = replicate MAX_ITERATIONS 0, n_last = None\<rparr>
     = Inr \<lparr>u_prime_rhs = 3 / 2, du_prime = 1 / 2, success = False,
        u_arr = ([0, 1, 2], [1, 1, 1]),
        convergence = (replicate MAX_ITERATIONS 0)[0 := 1], n_last = Some 0\<rparr>
   \<and> list_ex (\<lambda>s. \<not> ode_successful (linear_ode (5 / 2)) s)
       (ode_run (linear_ode (5 / 2)) (ode_init (linear_ode (5 / 2)) (0, 3 / 2)) (tl [0, 1, 2]))
   \<and> unconverged (linear_ode (5 / 2)) [0, 1, 2] 0 3 (1, 1 / 2) 1
   \<and> integrator_fails (linear_ode (5 / 2)) [0, 1, 2] 0
       (fst (guess (linear_ode (5 / 2)) [0, 1, 2] 0 3 (1, 1 / 2) 1))
   \<and> shooting (linear_ode (5 / 2)) (\<lambda>i. 0) 0 2 3 0 3 1 (1 / 2) = Inl integration_failed
   \<and> (\<exists>i<MAX_ITERATIONS. unconverged (linear_ode (5 / 2)) [0, 1, 2] 0 3 (1, 1 / 2) i
        \<and> integrator_fails (linear_ode (5 / 2)) [0, 1, 2] 0
            (fst (guess (linear_ode (5 / 2)) [0, 1, 2] 0 3 (1, 1 / 2) i)))
   \<and> linspace 0 2 2 = Inr [0, 2] \<and> (1::int) \<le> 2
   \<and> unconverged (linear_ode 1000) [0, 2] 0 1000 (1, 1 / 2) MAX_ITERATIONS
   \<and> shooting (linear_ode 1000) (\<lambda>i. if i = 1 then 1 else if i = 0 then 0 else 1 / 2)
         0 2 2 0 1000 1 (1 / 2) = Inr (climbing 100)
   \<and> \<not> success (climbing 100)
   \<and> n_last (climbing 100) = Some (MAX_ITERATIONS - 1)
   \<and> length (convergence (climbing 100)) = MAX_ITERATIONS
   \<and> convergence (climbing 100) =
       map (\<lambda>i. residual (linear_ode 1000) [0, 2] 0 1000
                  (fst (guess (linear_ode 1000) [0, 2] 0 1000 (1, 1 / 2) i))) [0..<MAX_ITERATIONS]
   \<and> list_all (\<lambda>r. TOLERANCE \<le> r) (convergence (climbing 100))"
proof -
  have N3: "(1::int) \<le> 3" and N2: "(1::int) \<le> 2" by simp_all
  have k: "1 < MAX_ITERATIONS" by (simp add: MAX_ITERATIONS_def)
  have ns: "\<not> success (climbing 100)" by (simp add: climbing_def)
  note t1 = shooting_failure_modes[OF linspace_eval3 N3,
      where api = "linear_ode (5 / 2)" and mem = "\<lambda>i. 0" and u_a = 0 and u_b = 3
      and ?s0.0 = 1 and ?ds0.0 = "1 / 2" and k = 1 and j = 1
      and st = "\<lparr>u_prime_rhs = 3 / 2, du_prime = 1 / 2, success = False,
        u_arr = ([0, 1, 2], [1, 1, 1]),
        convergence = (replicate MAX_ITERATIONS 0)[0 := 1], n_last = Some 0\<rparr>"
      and e = integration_failed]
  note t2 = shooting_failure_modes[OF linspace_eval2 N2,
      where api = "linear_ode 1000"
      and mem = "\<lambda>i. if i = 1 then 1 else if i = 0 then 0 else 1 / 2" and u_a = 0 and u_b = 1000
      and ?s0.0 = 1 and ?ds0.0 = "1 / 2" and fin = "climbing 100"]
  have a: "shooting (linear_ode (5 / 2)) (\<lambda>i. 0) 0 2 3 0 3 1 (1 / 2) = Inl integration_failed"
    by (rule t1[THEN conjunct2, THEN conjunct1, rule_format])
      (intro conjI k conjunct1[OF failing_guesses] conjunct2[OF failing_guesses])
  have a': "shooting (linear_ode (5 / 2)) (\<lambda>i. 0) 0 2 3 0 3 1 (1 / 2) = Inl integration_failed"
    using t1[THEN conjunct1] k failing_prefix failing_step by simp
  have b: "\<exists>i<MAX_ITERATIONS. unconverged (linear_ode (5 / 2)) [0, 1, 2] 0 3 (1, 1 / 2) i
        \<and> integrator_fails (linear_ode (5 / 2)) [0, 1, 2] 0
            (fst (guess (linear_ode (5 / 2)) [0, 1, 2] 0 3 (1, 1 / 2) i))"
    by (rule t1[THEN conjunct2, THEN conjunct2, THEN conjunct1, rule_format, THEN conjunct2, OF a'])
  have c: "n_last (climbing 100) = Some (MAX_ITERATIONS - 1)
      \<and> length (convergence (climbing 100)) = MAX_ITERATIONS
      \<and> list_all (\<lambda>r. TOLERANCE \<le> r) (convergence (climbing 100))"
    using t2[THEN conjunct2, THEN conjunct2, THEN conjunct2, THEN conjunct2] climbing_run ns
    by blast
  have "\<exists>r. shooting (linear_ode 1000) (\<lambda>i. if i = 1 then 1 else if i = 0 then 0 else 1 / 2)
         0 2 2 0 1000 1 (1 / 2) = Inr r
        \<and> \<not> success r
        \<and> n_last r = Some (MAX_ITERATIONS - 1)
        \<and> convergence r =
            map (\<lambda>i. residual (linear_ode 1000) [0, 2] 0 1000
                  (fst (guess (linear_ode 1000) [0, 2] 0 1000 (1, 1 / 2) i))) [0..<MAX_ITERATIONS]
        \<and> list_all (\<lambda>r. TOLERANCE \<le> r) (convergence r)"
    by (rule t2[THEN conjunct2, THEN conjunct2, THEN conjunct2, THEN conjunct1, rule_format,
          OF climbing_unconverged])
  then have d: "convergence (climbing 100) =
       map (\<lambda>i. residual (linear_ode 1000) [0, 2] 0 1000
                  (fst (guess (linear_ode 1000) [0, 2] 0 1000 (1, 1 / 2) i))) [0..<MAX_ITERATIONS]"
    unfolding climbing_run by auto
  show ?thesis
    by (intro conjI linspace_eval3 linspace_eval2 N3 N2 k failing_prefix failing_step
        conjunct1[OF failing_guesses] conjunct2[OF failing_guesses] a b climbing_unconverged
        climbing_run ns c[THEN conjunct1] c[THEN conjunct2, THEN conjunct1]
        c[THEN conjunct2, THEN conjunct2] d)
qed




subsection \<open>Invalid inputs\<close>

text \<open>
  Claim C6, refuted.  No cell checks its inputs.  With the step \<open>\<Delta>s = -1/2\<close> the
  shooting cell integrates and returns a state, flag set, where the claim has it
  raise before any integration step; with \<open>N = 0\<close> the Dirichlet cell ends in
  \<^const>\<open>IndexError\<close>, raised by \<open>b[0] -= \<dots>\<close> after the (empty) matrix has been
  assembled.
\<close>

theorem invalid_input_counterexample:
  "shooting (linear_ode 10) (\<lambda>i. 0) 0 2 3 0 2 1 (- 1 / 2) =
     Inr \<lparr>u_prime_rhs = 1, du_prime = - 1 / 2, success = True,
          u_arr = ([0, 1, 2], [1, 1, 1]),
          convergence = (replicate 100 0)[0 := 0], n_last = Some 0\<rparr>
   \<and> dirichlet_fd gauss_solve (\<lambda>i. 0) exp 0 1 0 3 0 = Inl IndexError"
  by (simp add: shooting_def linspace_def empty2_def zeros_def shoot_eval MAX_ITERATIONS_def
      upt_conv_Cons dirichlet_fd_unfold)

text \<open>
  Claim C6, amended.  For every \<open>N \<le> 0\<close> each cell ends in an exception of Python
  or NumPy and returns nothing: the Dirichlet cell in \<^const>\<open>IndexError\<close> for
  \<open>N = 0\<close>, \<^const>\<open>ZeroDivisionError\<close> for \<open>N = -1\<close> and \<^const>\<open>ValueError\<close> below;
  the mixed cell in \<^const>\<open>IndexError\<close> for \<open>N = 0\<close> (\<^const>\<open>ZeroDivisionError\<close> when
  also \<open>a = b\<close>) and for \<open>N = -2\<close>, \<^const>\<open>ZeroDivisionError\<close> for \<open>N = -1\<close> and
  \<^const>\<open>ValueError\<close> below; the shooting cell in \<^const>\<open>IndexError\<close> for \<open>N = 0\<close>
  sample points and \<^const>\<open>ValueError\<close> below.  A step \<open>\<Delta>s \<le> 0\<close> is not rejected:
  on \<open>M \<ge> 1\<close> sample points and with an integrator that never reports failure the
  shooting cell returns a state.
\<close>

theorem invalid_resolution_raises:
  assumes "N \<le> 0"
  shows "dirichlet_fd solve mem f a b u_a u_b N =
           Inl (if N = 0 then IndexError else if N = - 1 then ZeroDivisionError else ValueError)
       \<and> mixed_fd solve mem f a b u_a u_x_b N =
           Inl (if N = 0 then (if a = b then ZeroDivisionError else IndexError)
                else if N = - 1 then ZeroDivisionError
                else if N = - 2 then IndexError
                else ValueError)
       \<and> shooting api mem a b N u_a u_b s0 ds0 = Inl (if N = 0 then IndexError else ValueError)
       \<and> ((\<forall>s. ode_successful api s) \<and> 1 \<le> M \<and> ds0 \<le> 0 \<longrightarrow>
            (\<exists>st. shooting api mem a b M u_a u_b s0 ds0 = Inr st))"
proof (intro conjI impI)
  show "dirichlet_fd solve mem f a b u_a u_b N =
           Inl (if N = 0 then IndexError else if N = - 1 then ZeroDivisionError else ValueError)"
    using assms by (simp add: dirichlet_fd_unfold)
  show "mixed_fd solve mem f a b u_a u_x_b N =
           Inl (if N = 0 then (if a = b then ZeroDivisionError else IndexError)
                else if N = - 1 then ZeroDivisionError
                else if N = - 2 then IndexError
                else ValueError)"
    by (simp only: mixed_fd_def mixed_assemble_invalid[OF assms] ebind_simps)
  show "shooting api mem a b N u_a u_b s0 ds0 = Inl (if N = 0 then IndexError else ValueError)"
    by (rule shooting_invalid[OF assms])
next
  assume "(\<forall>s. ode_successful api s) \<and> 1 \<le> M \<and> ds0 \<le> 0"
  then show "\<exists>st. shooting api mem a b M u_a u_b s0 ds0 = Inr st"
    using shooting_total[of api M mem a b u_a u_b s0 ds0] by simp
qed

theorem invalid_resolution_raises_witness:
  "(0::int) \<le> 0
   \<and> dirichlet_fd gauss_solve (\<lambda>i. 0) exp 0 1 0 3 0 = Inl IndexError
   \<and> mixed_fd gauss_solve (\<lambda>i. 0) exp 0 1 0 3 0 = Inl IndexError
   \<and> shooting steady_ode (\<lambda>i. 0) 0 1 0 0 3 1 (- 1 / 2) = Inl IndexError
   \<and> (\<forall>s. ode_successful steady_ode s) \<and> (1::int) \<le> 3 \<and> (- 1 / 2 :: real) \<le> 0
   \<and> (\<exists>st. shooting steady_ode (\<lambda>i. 0) 0 1 3 0 3 1 (- 1 / 2) = Inr st)"
proof -
  have h: "(0::int) \<le> 0" by simp
  have s: "\<forall>s. ode_successful steady_ode s" by (simp add: steady_ode_def)
  show ?thesis
    using invalid_resolution_raises[OF h, where solve = gauss_solve and mem = "\<lambda>i. 0"
        and f = exp and a = 0 and b = 1 and u_a = 0 and u_b = 3 and u_x_b = 3
        and api = steady_ode and ?s0.0 = 1 and ?ds0.0 = "- 1 / 2" and M = 3] s
    by simp
qed

subsection \<open>Determinism\<close>

text \<open>
  Claim C8.  Each cell is a function of its inputs: in particular the result of
  none of them depends on the contents of the memory that \<^verbatim>\<open>numpy.empty\<close>
  hands out, the one source of variation between two runs on the same inputs.
\<close>

theorem solvers_deterministic:
  "shooting api mem1 a b N u_a u_b s0 ds0 = shooting api mem2 a b N u_a u_b s0 ds0
 \<and> dirichlet_fd solve mem1 f a b u_a u_b N = dirichlet_fd solve mem2 f a b u_a u_b N
 \<and> mixed_fd solve mem1 f a b u_a u_x_b N = mixed_fd solve mem2 f a b u_a u_x_b N"
  using shooting_mem[of api mem1 a b N u_a u_b s0 ds0 mem2]
    mixed_fd_mem[of solve mem1 f a b u_a u_x_b N mem2]
  by (simp add: dirichlet_fd_unfold)

subsection \<open>Second-order convergence\<close>

text \<open>
  Claim C9.  The Dirichlet cell on \<open>u_xx = e\<^sup>x\<close>, \<open>[0, 1]\<close>, \<open>u(0) = 0\<close>, \<open>u(1) = 3\<close>, in
  exact arithmetic and with a linear solver that is exact on every system the cell
  assembles: for every \<open>N \<ge> 1\<close> the cell returns \<open>N + 2\<close> values; their maximum error on
  the grid against \<open>u_true\<close> is at most a constant times \<open>\<Delta>x\<^sup>2\<close>, \<open>\<Delta>x = (b - a) / (N + 1)\<close>;
  and the ratio of the error at \<open>N\<close> to the error at \<open>2 N + 1\<close>, where \<open>\<Delta>x\<close> is halved,
  tends to 4 as \<open>N\<close> grows.
\<close>

theorem fd_second_order_convergence:
  assumes "\<And>n x_bc A rhs. 1 \<le> n \<Longrightarrow> dirichlet_assemble exp 0 1 0 3 (int n) = Inr (x_bc, A, rhs)
             \<Longrightarrow> exact_solve_on solve A rhs"
  shows "(\<forall>n\<ge>1. \<exists>U. dirichlet_fd solve mem exp 0 1 0 3 (int n) = Inr U \<and> length U = n + 2)
       \<and> (\<exists>C. \<forall>n\<ge>1. fd_exp_error solve mem n \<le> C * ((1 - 0) / real (n + 1))\<^sup>2)
       \<and> (\<lambda>n. fd_exp_error solve mem n / fd_exp_error solve mem (2 * n + 1)) \<longlonglongrightarrow> 4"
proof -
  have ex: "exact_solve_on solve (tridiag n (1 / ((1 - 0) / real (n + 1))\<^sup>2))
              (map (dirichlet_rhs exp 0 1 0 3 n) [0..<n])" if "1 \<le> n" for n
    by (rule assms[OF that fd_exp_assembled[OF that]])
  have 1: "\<forall>n\<ge>1. \<exists>U. dirichlet_fd solve mem exp 0 1 0 3 (int n) = Inr U \<and> length U = n + 2"
    using fd_exp_output[OF _ ex] by (simp del: upt_Suc)
  note lim = second_order_limits[of gmax "fd_exp_error solve mem",
      OF gmax_pos fd_exp_error_bounds(1)[OF _ ex] fd_exp_error_bounds(2)[OF _ ex]]
  have "\<forall>n\<ge>1. fd_exp_error solve mem n \<le> (11 / 120 * gmax) * ((1 - 0) / real (n + 1))\<^sup>2"
    using lim(2) by simp
  then have 2: "\<exists>C. \<forall>n\<ge>1. fd_exp_error solve mem n \<le> C * ((1 - 0) / real (n + 1))\<^sup>2" ..
  show ?thesis using 1 2 lim(3) by (intro conjI)
qed

theorem fd_second_order_convergence_witness:
  "dirichlet_fd gauss_solve (\<lambda>i. 0) exp 0 1 0 3 1 = Inr [0, (12 - exp (1 / 2)) / 8, 3]
   \<and> (\<exists>U. dirichlet_fd gauss_solve (\<lambda>i. 0) exp 0 1 0 3 (int 10) = Inr U \<and> length U = 12)
   \<and> (\<lambda>n. fd_exp_error gauss_solve (\<lambda>i. 0) n / fd_exp_error gauss_solve (\<lambda>i. 0) (2 * n + 1))
        \<longlonglongrightarrow> 4"
proof -
  have h: "exact_solve_on gauss_solve A rhs"
    if "1 \<le> n" "dirichlet_assemble exp 0 1 0 3 (int n) = Inr (x_bc, A, rhs)" for n x_bc A rhs
    using that(2) gauss_solve_tridiag unfolding fd_exp_assembled[OF that(1)] by auto
  have t: "(\<forall>n\<ge>1. \<exists>U. dirichlet_fd gauss_solve (\<lambda>i. 0) exp 0 1 0 3 (int n) = Inr U \<and> length U = n + 2)
       \<and> (\<exists>C. \<forall>n\<ge>1. fd_exp_error gauss_solve (\<lambda>i. 0) n \<le> C * ((1 - 0) / real (n + 1))\<^sup>2)
       \<and> (\<lambda>n. fd_exp_error gauss_solve (\<lambda>i. 0) n / fd_exp_error gauss_solve (\<lambda>i. 0) (2 * n + 1))
            \<longlonglongrightarrow> 4"
    by (rule fd_second_order_convergence) (erule (1) h)
  then have "\<forall>n\<ge>1. \<exists>U. dirichlet_fd gauss_solve (\<lambda>i. 0) exp 0 1 0 3 (int n) = Inr U \<and> length U = n + 2"
    by (rule conjunct1)
  from this[rule_format, of 10]
  have "\<exists>U. dirichlet_fd gauss_solve (\<lambda>i. 0) exp 0 1 0 3 (int 10) = Inr U \<and> length U = 12"
    by simp
  then show ?thesis using t fd_exp_n1 by simp
qed

end
